theory Spec2Isabelle
  imports Main "HOL-Library.AList"
begin

section \<open>JavaScript strings\<close>

text \<open>
  A string is a \<^typ>\<open>string\<close>. \<open>split\<close> is \<^verbatim>\<open>String.prototype.split\<close> with a separator of
  one character: it returns every piece, the empty ones too, and at least one piece.
\<close>

fun split :: "char \<Rightarrow> string \<Rightarrow> string list" where
  "split c [] = [[]]"
| "split c (x # xs) =
     (if x = c then [] # split c xs
      else (case split c xs of [] \<Rightarrow> [[x]] | p # ps \<Rightarrow> (x # p) # ps))"

text \<open>\<^verbatim>\<open>s.split('/').filter(Boolean)\<close>: the non-empty pieces.\<close>

definition segments :: "string \<Rightarrow> string list" where
  "segments s = filter (\<lambda>p. p \<noteq> []) (split CHR ''/'' s)"

text \<open>\<^verbatim>\<open>s.replace(/\/$/, '')\<close>: one trailing slash is removed.\<close>

definition strip_trailing_slash :: "string \<Rightarrow> string" where
  "strip_trailing_slash s = (if s \<noteq> [] \<and> last s = CHR ''/'' then butlast s else s)"

text \<open>The class \<^verbatim>\<open>\w\<close> of a regular expression: ASCII letters, digits and the underscore.\<close>

definition is_digit :: "char \<Rightarrow> bool" where
  "is_digit c = (let n = (of_char c :: nat) in 48 \<le> n \<and> n \<le> 57)"

definition is_word_char :: "char \<Rightarrow> bool" where
  "is_word_char c =
     (let n = (of_char c :: nat)
      in (48 \<le> n \<and> n \<le> 57) \<or> (65 \<le> n \<and> n \<le> 90) \<or> (97 \<le> n \<and> n \<le> 122) \<or> n = 95)"

text \<open>
  \<^verbatim>\<open>toUpperCase\<close> and \<^verbatim>\<open>toLowerCase\<close> on the ASCII letters; every other character is
  kept (the case mappings of characters outside ASCII are not modelled).
\<close>

definition upper_char :: "char \<Rightarrow> char" where
  "upper_char c =
     (let n = (of_char c :: nat) in if 97 \<le> n \<and> n \<le> 122 then char_of (n - 32) else c)"

definition lower_char :: "char \<Rightarrow> char" where
  "lower_char c =
     (let n = (of_char c :: nat) in if 65 \<le> n \<and> n \<le> 90 then char_of (n + 32) else c)"

definition toUpperCase :: "string \<Rightarrow> string" where
  "toUpperCase s = map upper_char s"

definition toLowerCase :: "string \<Rightarrow> string" where
  "toLowerCase s = map lower_char s"

definition startsWith :: "string \<Rightarrow> string \<Rightarrow> bool" where
  "startsWith s p = (take (length p) s = p)"

section \<open>Path matcher (src/path\_matcher.ts)\<close>

text \<open>
  \<^verbatim>\<open>specSegment.match(/^\{(\w+)\}$/)\<close>: the captured name when the segment is an opening
  brace, one or more word characters and a closing brace, and nothing else.
\<close>

definition paramMatch :: "string \<Rightarrow> string option" where
  "paramMatch s =
     (case s of
        [] \<Rightarrow> None
      | c # r \<Rightarrow>
          if c = CHR ''{'' \<and> r \<noteq> [] \<and> last r = CHR ''}''
             \<and> butlast r \<noteq> [] \<and> list_all is_word_char (butlast r)
          then Some (butlast r) else None)"

text \<open>
  An assignment \<^verbatim>\<open>obj[k] = v\<close> of a string \<open>v\<close> to an object that was made by \<^verbatim>\<open>{}\<close>, the
  object being the list of its entries in insertion order: a present key keeps its place
  and a new one goes last (\<^const>\<open>AList.update\<close>). The key \<open>__proto__\<close> is the exception.
  The object has no property of its own under that name, so the assignment reaches the
  setter that \<^verbatim>\<open>Object.prototype\<close> has for it, and the setter ignores a value that is
  neither an object nor \<^verbatim>\<open>null\<close>: nothing is bound. Every other name that the object
  inherits (\<open>constructor\<close>, \<open>toString\<close>, ...) is a writable data property, and the
  assignment makes a property of the object's own.
\<close>

definition assign_string ::
  "string \<Rightarrow> string \<Rightarrow> (string \<times> string) list \<Rightarrow> (string \<times> string) list" where
  "assign_string k v obj = (if k = ''__proto__'' then obj else AList.update k v obj)"

text \<open>
  The value \<open>tryMatch\<close> returns. \<open>params\<close> is the object \<^verbatim>\<open>Record<string, string>\<close> as
  the list of its entries; \<^verbatim>\<open>params[k] = v\<close> is \<^const>\<open>assign_string\<close>.
\<close>

record match_result =
  specPath :: string
  params :: "(string \<times> string) list"
  score :: int

text \<open>
  The loop of \<open>tryMatch\<close> over the positions \<open>i\<close>, on the pairs
  \<open>(specSegments[i], requestSegments[i])\<close>; \<open>None\<close> is the early \<^verbatim>\<open>return null\<close>.
\<close>

fun match_loop ::
  "(string \<times> string) list \<Rightarrow> (string \<times> string) list \<Rightarrow> int
     \<Rightarrow> ((string \<times> string) list \<times> int) option" where
  "match_loop [] ps sc = Some (ps, sc)"
| "match_loop ((specSegment, requestSegment) # rest) ps sc =
     (case paramMatch specSegment of
        Some name \<Rightarrow> match_loop rest (assign_string name requestSegment ps) (sc + 1)
      | None \<Rightarrow>
          if specSegment = requestSegment then match_loop rest ps (sc + 10) else None)"

definition tryMatch :: "string \<Rightarrow> string \<Rightarrow> match_result option" where
  "tryMatch requestPath sp =
     (let requestSegments = segments requestPath;
          specSegments = segments sp
      in if length requestSegments \<noteq> length specSegments then None
         else (case match_loop (zip specSegments requestSegments) [] 0 of
                 None \<Rightarrow> None
               | Some (ps, sc) \<Rightarrow> Some \<lparr>specPath = sp, params = ps, score = sc\<rparr>))"

record PathMatchResult =
  matched :: string
  match_params :: "(string \<times> string) list"

text \<open>\<^verbatim>\<open>requestPath.split('?')[0].replace(/\/$/, '') || '/'\<close>\<close>

definition cleanPath :: "string \<Rightarrow> string" where
  "cleanPath requestPath =
     (let s = strip_trailing_slash (hd (split CHR ''?'' requestPath))
      in if s = [] then ''/'' else s)"

text \<open>
  \<^verbatim>\<open>matches.sort((a, b) => b.score - a.score)\<close> sorts by descending score, and
  \<^verbatim>\<open>Array.prototype.sort\<close> is stable; \<^const>\<open>sort_key\<close> on the negated score is the
  stable insertion sort with that order.
\<close>

definition matchPath :: "string \<Rightarrow> string list \<Rightarrow> PathMatchResult option" where
  "matchPath requestPath specPaths =
     (let matches = List.map_filter (tryMatch (cleanPath requestPath)) specPaths
      in if matches = [] then None
         else (let m = hd (sort_key (\<lambda>a. - score a) matches)
               in Some \<lparr>matched = specPath m, match_params = params m\<rparr>))"

section \<open>Coverage tracker (src/coverage.ts)\<close>

text \<open>
  Isabelle's field names are global, so the fields of a record carry its initials where
  two interfaces of the source share a name (\<open>route\<close>, \<open>method\<close>, \<open>status\<close>, \<open>path\<close>,
  \<open>body\<close>, \<open>headers\<close>).
\<close>

record CoverageEntry =
  ce_route :: string
  ce_method :: string
  ce_statuses :: "string list"

record CoverageRecord =
  cr_route :: string
  cr_method :: string
  cr_status :: string

text \<open>The private state of the class; \<open>covered\<close> is the \<^verbatim>\<open>Set<string>\<close>.\<close>

record CoverageTracker =
  allEndpoints :: "CoverageRecord list"
  covered :: "string set"
  reportOnExit :: bool
  exportOnExit :: bool
  exitHandlerRegistered :: bool

definition new_CoverageTracker :: CoverageTracker where
  "new_CoverageTracker =
     \<lparr>allEndpoints = [], covered = {}, reportOnExit = False, exportOnExit = False,
      exitHandlerRegistered = False\<rparr>"

definition makeKey :: "string \<Rightarrow> string \<Rightarrow> string \<Rightarrow> string" where
  "makeKey route method status = toUpperCase method @ '':'' @ route @ '':'' @ status"

definition registerEndpoints :: "CoverageTracker \<Rightarrow> CoverageEntry list \<Rightarrow> CoverageTracker" where
  "registerEndpoints t entries =
     t\<lparr>allEndpoints := allEndpoints t @
          concat (map (\<lambda>entry. map (\<lambda>status.
                    \<lparr>cr_route = ce_route entry, cr_method = ce_method entry, cr_status = status\<rparr>)
                  (ce_statuses entry)) entries)\<rparr>"

definition recordCoverage :: "CoverageTracker \<Rightarrow> string \<Rightarrow> string \<Rightarrow> string \<Rightarrow> CoverageTracker" where
  "recordCoverage t route method status =
     t\<lparr>covered := insert (makeKey route method status) (covered t)\<rparr>"

definition record_key :: "CoverageRecord \<Rightarrow> string" where
  "record_key e = makeKey (cr_route e) (cr_method e) (cr_status e)"

definition getUncovered :: "CoverageTracker \<Rightarrow> CoverageRecord list" where
  "getUncovered t = filter (\<lambda>e. record_key e \<notin> covered t) (allEndpoints t)"

text \<open>
  \<open>getStats\<close>: the fields \<open>total\<close> and \<open>covered\<close>. The third field, \<open>percentage\<close>, is
  a rounding of a quotient of doubles and is not part of the model.
\<close>

record CoverageStats =
  stats_total :: nat
  stats_covered :: nat

definition getStats :: "CoverageTracker \<Rightarrow> CoverageStats" where
  "getStats t = \<lparr>stats_total = length (allEndpoints t), stats_covered = card (covered t)\<rparr>"

text \<open>
  \<open>enableReporting\<close>; \<open>registerExitHandler\<close> sets its flag and hooks the process exit,
  which is outside the model.
\<close>

definition enableReporting :: "CoverageTracker \<Rightarrow> bool \<Rightarrow> bool \<Rightarrow> CoverageTracker" where
  "enableReporting t report exportFile =
     (let t' = t\<lparr>reportOnExit := report, exportOnExit := exportFile\<rparr>
      in if (report \<or> exportFile) \<and> \<not> exitHandlerRegistered t'
         then t'\<lparr>exitHandlerRegistered := True\<rparr> else t')"

text \<open>A run of the tracker: the calls that change its state, in order.\<close>

datatype tracker_call =
  RegisterEndpoints "CoverageEntry list"
| RecordCoverage string string string

fun tracker_step :: "CoverageTracker \<Rightarrow> tracker_call \<Rightarrow> CoverageTracker" where
  "tracker_step t (RegisterEndpoints entries) = registerEndpoints t entries"
| "tracker_step t (RecordCoverage route method status) = recordCoverage t route method status"

definition tracker_run :: "CoverageTracker \<Rightarrow> tracker_call list \<Rightarrow> CoverageTracker" where
  "tracker_run t calls = foldl tracker_step t calls"

text \<open>
  Every \<open>recordCoverage\<close> of the run names a triple whose key is the key of a record
  registered before that call.
\<close>

fun records_registered :: "CoverageTracker \<Rightarrow> tracker_call list \<Rightarrow> bool" where
  "records_registered t [] = True"
| "records_registered t (RegisterEndpoints entries # calls) =
     records_registered (registerEndpoints t entries) calls"
| "records_registered t (RecordCoverage route method status # calls) =
     (makeKey route method status \<in> record_key ` set (allEndpoints t)
      \<and> records_registered (recordCoverage t route method status) calls)"

section \<open>JavaScript values\<close>

text \<open>
  A value a test hands to the assertion (\<^verbatim>\<open>unknown\<close> in the source). An object is one
  that an object literal or \<^verbatim>\<open>JSON.parse\<close> makes: the list of its own properties in
  enumeration order, with \<^verbatim>\<open>Object.prototype\<close> as its prototype. A function is the value
  it returns when it is called without arguments, as \<^verbatim>\<open>res.body()\<close> and the conversion of
  an object to a primitive call it. Numbers are integers: a status code is one, and
  doubles that are not integers, \<^verbatim>\<open>NaN\<close> as a stored value and the infinities are outside
  the model. Getters, symbols as keys, functions that throw or look at their arguments,
  and objects that contain themselves are outside it too.
\<close>

datatype jsval =
  VUndefined
| VNull
| VBool bool
| VNum int
| VStr string
| VArr "jsval list"
| VObj "(string \<times> jsval) list"
| VFun jsval

fun truthy :: "jsval \<Rightarrow> bool" where
  "truthy VUndefined = False"
| "truthy VNull = False"
| "truthy (VBool b) = b"
| "truthy (VNum n) = (n \<noteq> 0)"
| "truthy (VStr s) = (s \<noteq> [])"
| "truthy _ = True"

text \<open>\<^verbatim>\<open>typeof v === 'object'\<close> for a truthy \<open>v\<close>.\<close>

fun is_object :: "jsval \<Rightarrow> bool" where
  "is_object (VArr _) = True"
| "is_object (VObj _) = True"
| "is_object _ = False"

text \<open>The decimal numeral of a number, as \<^verbatim>\<open>String(n)\<close> prints an integer below \<open>10\<^sup>2\<^sup>1\<close>.\<close>

fun string_of_nat :: "nat \<Rightarrow> string" where
  "string_of_nat n =
     (if n < 10 then [char_of (48 + n)]
      else string_of_nat (n div 10) @ [char_of (48 + n mod 10)])"

declare string_of_nat.simps [simp del]

definition string_of_int :: "int \<Rightarrow> string" where
  "string_of_int i =
     (if i < 0 then CHR ''-'' # string_of_nat (nat (- i)) else string_of_nat (nat i))"

text \<open>
  A property name that is an array index: \<open>0\<close>, or digits that do not start with \<open>0\<close>.
\<close>

definition array_index :: "string \<Rightarrow> nat option" where
  "array_index s =
     (if s \<noteq> [] \<and> list_all is_digit s \<and> (s = ''0'' \<or> hd s \<noteq> CHR ''0'')
      then Some (foldl (\<lambda>a c. 10 * a + (of_char c - 48)) 0 s) else None)"

text \<open>
  Member access \<^verbatim>\<open>v[k]\<close> on a value that is not \<^verbatim>\<open>null\<close> or \<^verbatim>\<open>undefined\<close>, and \<^verbatim>\<open>k in v\<close>
  on an object or array, for a name \<open>k\<close> that no prototype has: the names the source
  reads (\<open>response\<close>, \<open>request\<close>, \<open>statusCode\<close>, \<open>status\<close>, \<open>data\<close>, \<open>config\<close>, \<open>body\<close>,
  \<open>req\<close>, \<open>method\<close>, \<open>url\<close>, \<open>path\<close>, \<open>headers\<close>) are such names, and so is a part of an
  instance path, which names a property of the value's own. The members a value inherits
  are looked at where the source depends on them, in the conversions below.
\<close>

fun js_get :: "jsval \<Rightarrow> string \<Rightarrow> jsval" where
  "js_get (VObj kvs) k = (case map_of kvs k of Some v \<Rightarrow> v | None \<Rightarrow> VUndefined)"
| "js_get (VArr xs) k =
     (if k = ''length'' then VNum (int (length xs))
      else (case array_index k of
              Some i \<Rightarrow> if i < length xs then xs ! i else VUndefined
            | None \<Rightarrow> VUndefined))"
| "js_get (VStr s) k =
     (if k = ''length'' then VNum (int (length s))
      else (case array_index k of
              Some i \<Rightarrow> if i < length s then VStr [s ! i] else VUndefined
            | None \<Rightarrow> VUndefined))"
| "js_get _ k = VUndefined"

fun js_in :: "jsval \<Rightarrow> string \<Rightarrow> bool" where
  "js_in (VObj kvs) k = (map_of kvs k \<noteq> None)"
| "js_in (VArr xs) k =
     (k = ''length'' \<or> (case array_index k of Some i \<Rightarrow> i < length xs | None \<Rightarrow> False))"
| "js_in _ k = False"

text \<open>\<open>ValidationError\<close> of src/types.ts; an absent optional field is \<open>None\<close>.\<close>

record ValidationError =
  ve_path :: string
  ve_message :: string
  ve_keyword :: "string option"
  ve_expected :: "jsval option"
  ve_actual :: "jsval option"

text \<open>
  What a call can throw: an \<^verbatim>\<open>Error\<close> with its message, the engine's \<^verbatim>\<open>TypeError\<close>, and
  the \<^verbatim>\<open>AssertionError\<close> of \<open>isValidResponse\<close> with the errors of the result (its
  message text is not modelled).
\<close>

datatype error =
  Error string
| TypeError
| AssertionError "ValidationError list option"

text \<open>Member access on a value that may be \<^verbatim>\<open>null\<close> or \<^verbatim>\<open>undefined\<close>.\<close>

fun js_get_checked :: "jsval \<Rightarrow> string \<Rightarrow> error + jsval" where
  "js_get_checked VUndefined k = Inl TypeError"
| "js_get_checked VNull k = Inl TypeError"
| "js_get_checked v k = Inr (js_get v k)"

text \<open>
  The built-ins whose full behaviour is not modelled are parameters: the number that a
  string denotes (\<open>None\<close> is \<^verbatim>\<open>NaN\<close>), the source text that \<^verbatim>\<open>Function.prototype.toString\<close>
  gives for a function, and \<^verbatim>\<open>new URL(s).pathname\<close> (\<open>None\<close> when the constructor throws).
\<close>

record builtins =
  StringToNumber :: "string \<Rightarrow> int option"
  Function_toString :: "jsval \<Rightarrow> string"
  URL_pathname :: "string \<Rightarrow> string option"

subsection \<open>Conversion to a primitive, a string and a number\<close>

lemma size_list_mem: "x \<in> set xs \<Longrightarrow> f x < Suc (size_list f xs)"
  by (induction xs) auto

fun is_primitive :: "jsval \<Rightarrow> bool" where
  "is_primitive (VArr _) = False"
| "is_primitive (VObj _) = False"
| "is_primitive (VFun _) = False"
| "is_primitive _ = True"

text \<open>
  One step of \<^verbatim>\<open>OrdinaryToPrimitive\<close> on an object with the entries \<open>kvs\<close>: the member
  \<open>name\<close> is read and, when it is callable, called; the result counts when it is not an
  object. A member of the object's own is callable when it is a function. When the
  object has no member of that name of its own, it inherits the one of
  \<^verbatim>\<open>Object.prototype\<close>: \<open>toString\<close> gives \<^verbatim>\<open>[object Object]\<close>, and \<open>valueOf\<close> gives the
  object itself, which does not count.
\<close>

definition method_result :: "(string \<times> jsval) list \<Rightarrow> string \<Rightarrow> jsval option" where
  "method_result kvs name =
     (case map_of kvs name of
        Some (VFun r) \<Rightarrow> if is_primitive r then Some r else None
      | Some _ \<Rightarrow> None
      | None \<Rightarrow> if name = ''toString'' then Some (VStr ''[object Object]'') else None)"

text \<open>
  \<^verbatim>\<open>OrdinaryToPrimitive\<close>: the first of the two methods, in the order of the hint, that
  gives a primitive; a \<^verbatim>\<open>TypeError\<close> when neither does.
\<close>

definition OrdinaryToPrimitive :: "(string \<times> jsval) list \<Rightarrow> string list \<Rightarrow> error + jsval" where
  "OrdinaryToPrimitive kvs methodNames =
     (case List.map_filter (method_result kvs) methodNames of
        [] \<Rightarrow> Inl TypeError
      | r # _ \<Rightarrow> Inr r)"

text \<open>
  \<^verbatim>\<open>Array.prototype.join\<close> on the converted elements, in order: the first throw ends it,
  and the pieces are separated by commas.
\<close>

fun join :: "(error + string) list \<Rightarrow> error + string" where
  "join [] = Inr []"
| "join [x] = x"
| "join (x # y # ys) =
     (case x of
        Inl e \<Rightarrow> Inl e
      | Inr s \<Rightarrow> (case join (y # ys) of Inl e \<Rightarrow> Inl e | Inr t \<Rightarrow> Inr (s @ '','' @ t)))"

lemma OrdinaryToPrimitive_primitive:
  "OrdinaryToPrimitive kvs methodNames = Inr p \<Longrightarrow> is_primitive p"
proof -
  assume a: "OrdinaryToPrimitive kvs methodNames = Inr p"
  then have "p \<in> set (List.map_filter (method_result kvs) methodNames)"
    by (auto simp: OrdinaryToPrimitive_def split: list.splits)
  then obtain name where "method_result kvs name = Some p"
    by (auto simp: map_filter_def)
  then show "is_primitive p"
    by (auto simp: method_result_def split: option.splits jsval.splits if_splits)
qed

text \<open>
  \<^verbatim>\<open>String(v)\<close>. An object is converted to a primitive first, with \<open>toString\<close> before
  \<open>valueOf\<close>. An array has the \<open>toString\<close> of \<^verbatim>\<open>Array.prototype\<close>, which joins its elements,
  \<^verbatim>\<open>undefined\<close> and \<^verbatim>\<open>null\<close> as the empty string; a function has the \<open>toString\<close> of
  \<^verbatim>\<open>Function.prototype\<close>. \<open>Inl\<close> is a throw.
\<close>

function js_String :: "builtins \<Rightarrow> jsval \<Rightarrow> error + string" where
  "js_String b (VStr s) = Inr s"
| "js_String b (VNum n) = Inr (string_of_int n)"
| "js_String b VUndefined = Inr ''undefined''"
| "js_String b VNull = Inr ''null''"
| "js_String b (VBool x) = Inr (if x then ''true'' else ''false'')"
| "js_String b (VFun r) = Inr (Function_toString b (VFun r))"
| "js_String b (VArr xs) =
     join (map (\<lambda>x. if x = VUndefined \<or> x = VNull then Inr [] else js_String b x) xs)"
| "js_String b (VObj kvs) =
     (case OrdinaryToPrimitive kvs [''toString'', ''valueOf''] of
        Inl e \<Rightarrow> Inl e
      | Inr p \<Rightarrow> js_String b p)"
  by pat_completeness auto
termination
proof (relation "measure (\<lambda>(b, v). if is_primitive v then 0 else Suc (size v))")
  show "wf (measure (\<lambda>(b :: builtins, v). if is_primitive v then 0 else Suc (size v)))" by simp
next
  fix b :: builtins and xs :: "jsval list" and x
  assume "x \<in> set xs"
  then have "size x < Suc (size_list size xs)" by (rule size_list_mem)
  then show "((b, x), (b, VArr xs)) \<in> measure (\<lambda>(b, v). if is_primitive v then 0 else Suc (size v))"
    by simp
next
  fix b :: builtins and kvs :: "(string \<times> jsval) list" and p
  assume "OrdinaryToPrimitive kvs [''toString'', ''valueOf''] = Inr p"
  then have "is_primitive p" by (rule OrdinaryToPrimitive_primitive)
  then show "((b, p), (b, VObj kvs)) \<in> measure (\<lambda>(b, v). if is_primitive v then 0 else Suc (size v))"
    by simp
qed

text \<open>
  \<^verbatim>\<open>Number(v)\<close>; \<open>Inr None\<close> is \<^verbatim>\<open>NaN\<close>. An object is converted to a primitive first, with
  \<open>valueOf\<close> before \<open>toString\<close>; for an array and for a function \<open>valueOf\<close> gives the value
  itself, so the primitive is the string of \<open>toString\<close>.
\<close>

function js_Number :: "builtins \<Rightarrow> jsval \<Rightarrow> error + int option" where
  "js_Number b (VNum n) = Inr (Some n)"
| "js_Number b VUndefined = Inr None"
| "js_Number b VNull = Inr (Some 0)"
| "js_Number b (VBool x) = Inr (Some (if x then 1 else 0))"
| "js_Number b (VStr s) = Inr (StringToNumber b s)"
| "js_Number b (VFun r) = Inr (StringToNumber b (Function_toString b (VFun r)))"
| "js_Number b (VArr xs) =
     (case js_String b (VArr xs) of
        Inl e \<Rightarrow> Inl e
      | Inr s \<Rightarrow> Inr (StringToNumber b s))"
| "js_Number b (VObj kvs) =
     (case OrdinaryToPrimitive kvs [''valueOf'', ''toString''] of
        Inl e \<Rightarrow> Inl e
      | Inr p \<Rightarrow> js_Number b p)"
  by pat_completeness auto
termination
proof (relation "measure (\<lambda>(b, v). if is_primitive v then 0 else 1)")
  show "wf (measure (\<lambda>(b :: builtins, v). if is_primitive v then 0 else (1::nat)))" by simp
next
  fix b :: builtins and kvs :: "(string \<times> jsval) list" and p
  assume "OrdinaryToPrimitive kvs [''valueOf'', ''toString''] = Inr p"
  then have "is_primitive p" by (rule OrdinaryToPrimitive_primitive)
  then show "((b, p), (b, VObj kvs)) \<in> measure (\<lambda>(b, v). if is_primitive v then 0 else 1)"
    by simp
qed

text \<open>\<^verbatim>\<open>a || b\<close> and \<^verbatim>\<open>a ?? b\<close> on values.\<close>

definition or_else :: "jsval \<Rightarrow> jsval \<Rightarrow> jsval" where
  "or_else a b = (if truthy a then a else b)"

definition nullish_else :: "jsval \<Rightarrow> jsval \<Rightarrow> jsval" where
  "nullish_else a b = (if a = VUndefined \<or> a = VNull then b else a)"

text \<open>\<^verbatim>\<open>Object.entries(v)\<close> for a truthy \<open>v\<close>.\<close>

fun entries :: "jsval \<Rightarrow> (string \<times> jsval) list" where
  "entries (VObj kvs) = kvs"
| "entries (VArr xs) = map (\<lambda>i. (string_of_nat i, xs ! i)) [0..<length xs]"
| "entries (VStr s) = map (\<lambda>i. (string_of_nat i, VStr [s ! i])) [0..<length s]"
| "entries _ = []"

section \<open>Response validator (src/response\_validator.ts)\<close>

record ParsedResponse =
  pr_method :: string
  pr_path :: string
  pr_status :: int
  pr_headers :: "(string \<times> string) list"
  pr_body :: jsval

text \<open>
  \<open>extractPath\<close>. On a value that is not a string, \<^verbatim>\<open>url.startsWith\<close> is not a function:
  the \<^verbatim>\<open>TypeError\<close> is caught, and \<^verbatim>\<open>url.split\<close> in the handler throws the next one. (An
  object that stands in for a string, with functions \<open>startsWith\<close> and \<open>split\<close> of its
  own that take an argument, is outside the model.)
\<close>

fun extractPath :: "builtins \<Rightarrow> jsval \<Rightarrow> error + string" where
  "extractPath b (VStr url) =
     (if startsWith url ''http://'' \<or> startsWith url ''https://''
      then (case URL_pathname b url of
              Some pathname \<Rightarrow> Inr pathname
            | None \<Rightarrow> Inr (hd (split CHR ''?'' url)))
      else Inr (hd (split CHR ''?'' url)))"
| "extractPath b _ = Inl TypeError"

text \<open>
  \<open>normalizeHeaders\<close>: the loop of assignments \<^verbatim>\<open>result[key.toLowerCase()] = String(value)\<close>
  on the object \<open>result\<close>, which starts empty; a conversion that throws ends it.
\<close>

fun normalize_loop ::
  "builtins \<Rightarrow> (string \<times> jsval) list \<Rightarrow> (string \<times> string) list
     \<Rightarrow> error + (string \<times> string) list" where
  "normalize_loop b [] result = Inr result"
| "normalize_loop b ((key, v) # rest) result =
     (case js_String b v of
        Inl e \<Rightarrow> Inl e
      | Inr s \<Rightarrow> normalize_loop b rest (assign_string (toLowerCase key) s result))"

definition normalizeHeaders :: "builtins \<Rightarrow> jsval \<Rightarrow> error + (string \<times> string) list" where
  "normalizeHeaders b headers = normalize_loop b (entries headers) []"

text \<open>\<^verbatim>\<open>n || 0\<close> on the number \<open>n\<close> that \<^verbatim>\<open>Number\<close> has given.\<close>

definition number_or_0 :: "int option \<Rightarrow> int" where
  "number_or_0 n = (case n of Some k \<Rightarrow> k | None \<Rightarrow> 0)"

text \<open>
  The object literal of a recognized shape, its members in the order in which they are
  evaluated. \<open>src\<close> is \<^verbatim>\<open>res.request\<close>, \<^verbatim>\<open>res.config\<close>, \<^verbatim>\<open>res.req\<close> or \<open>res\<close> itself, read for
  the method first (a \<^verbatim>\<open>TypeError\<close> when it is \<^verbatim>\<open>null\<close> or \<^verbatim>\<open>undefined\<close>); \<open>url\<close> is the
  expression handed to \<open>extractPath\<close>, \<open>status\<close> the one handed to \<^verbatim>\<open>Number\<close>.
\<close>

definition build_parsed ::
  "builtins \<Rightarrow> jsval \<Rightarrow> jsval \<Rightarrow> (jsval \<Rightarrow> jsval) \<Rightarrow> jsval \<Rightarrow> jsval
     \<Rightarrow> error + ParsedResponse" where
  "build_parsed b res src url status body =
     (case js_get_checked src ''method'' of
        Inl e \<Rightarrow> Inl e
      | Inr m \<Rightarrow>
          (case js_String b (or_else m (VStr ''GET'')) of
             Inl e \<Rightarrow> Inl e
           | Inr method \<Rightarrow>
               (case extractPath b (url src) of
                  Inl e \<Rightarrow> Inl e
                | Inr p \<Rightarrow>
                    (case js_Number b status of
                       Inl e \<Rightarrow> Inl e
                     | Inr n \<Rightarrow>
                         (case normalizeHeaders b (or_else (js_get res ''headers'') (VObj [])) of
                            Inl e \<Rightarrow> Inl e
                          | Inr hs \<Rightarrow>
                              Inr \<lparr>pr_method = toUpperCase method,
                                   pr_path = p,
                                   pr_status = number_or_0 n,
                                   pr_headers = hs,
                                   pr_body = body\<rparr>)))))"

text \<open>For the termination of \<open>parseResponse\<close>: a member that is an object is smaller.\<close>

lemma size_map_of: "map_of kvs k = Some v \<Longrightarrow> size v < Suc (size_list (size_prod (\<lambda>_. 0) size) kvs)"
  by (induction kvs) (auto split: if_splits)

lemma size_js_get: "is_object (js_get v k) \<Longrightarrow> size (js_get v k) < size v"
proof (cases v)
  case (VArr xs)
  assume "is_object (js_get v k)"
  with VArr obtain i where "i < length xs" "js_get v k = xs ! i"
    by (auto split: if_splits option.splits)
  moreover have "size (xs ! i) < Suc (size_list size xs)"
    using calculation(1) by (intro size_list_mem) simp
  ultimately show ?thesis using VArr by simp
next
  case (VObj kvs)
  assume "is_object (js_get v k)"
  with VObj show ?thesis using size_map_of[of kvs k] by (auto split: option.splits)
qed (auto split: if_splits option.splits)

text \<open>
  \<open>parseResponse\<close>: the five shapes in the source's order. \<open>Inl\<close> is a throw.
\<close>

function parseResponse :: "builtins \<Rightarrow> jsval \<Rightarrow> error + ParsedResponse" where
  "parseResponse b response =
     (if \<not> truthy response \<or> \<not> is_object response
      then Inl (Error ''Invalid response: expected an object'')
      else if js_in response ''response'' \<and> truthy (js_get response ''response'')
              \<and> is_object (js_get response ''response'')
      then parseResponse b (js_get response ''response'')
      else if js_in response ''request'' \<and> js_in response ''statusCode''
      then build_parsed b response (js_get response ''request'')
             (\<lambda>request. or_else (js_get request ''url'') (VStr ''/''))
             (js_get response ''statusCode'')
             (case js_get response ''body'' of VFun r \<Rightarrow> r | v \<Rightarrow> v)
      else if js_in response ''data'' \<and> js_in response ''config'' \<and> js_in response ''status''
      then build_parsed b response (js_get response ''config'')
             (\<lambda>config. or_else (js_get config ''url'') (VStr ''/''))
             (js_get response ''status'')
             (js_get response ''data'')
      else if js_in response ''body'' \<and> js_in response ''req'' \<and> js_in response ''statusCode''
      then build_parsed b response (js_get response ''req'')
             (\<lambda>req. or_else (js_get req ''path'') (VStr ''/''))
             (js_get response ''statusCode'')
             (js_get response ''body'')
      else if js_in response ''status'' \<or> js_in response ''statusCode''
      then build_parsed b response response
             (\<lambda>res. or_else (js_get res ''url'') (or_else (js_get res ''path'') (VStr ''/'')))
             (or_else (js_get response ''status'') (js_get response ''statusCode''))
             (nullish_else (js_get response ''body'')
                (nullish_else (js_get response ''data'') VNull))
      else Inl (Error ''Unknown response format: could not extract method, path, status, or body''))"
  by pat_completeness auto
termination
  by (relation "measure (\<lambda>(b, response). size response)") (auto simp: size_js_get)

declare parseResponse.simps [simp del]

text \<open>An issue reported by the schema engine, and a compiled validator: the verdict and
  the \<open>errors\<close> property it leaves behind.\<close>

record ErrorObject =
  instancePath :: string
  eo_message :: "string option"
  eo_keyword :: string
  eo_params :: jsval

type_synonym ValidateFunction = "jsval \<Rightarrow> bool \<times> ErrorObject list option"

record ResponseValidators =
  rv_body :: "ValidateFunction option"
  rv_headers :: "ValidateFunction option"

record OperationValidators =
  responses :: "(string \<times> ResponseValidators) list"

text \<open>\<open>CompiledValidators\<close>: path, then method, then the status codes.\<close>

type_synonym CompiledValidators = "(string \<times> (string \<times> OperationValidators) list) list"

record ValidationResult =
  valid :: bool
  errors :: "ValidationError list option"

text \<open>\<open>getValueAtPath\<close>: the loop over the parts, then the function.\<close>

fun walk_parts :: "jsval \<Rightarrow> string list \<Rightarrow> jsval" where
  "walk_parts current [] = current"
| "walk_parts current (part # parts) =
     (if current = VNull \<or> current = VUndefined then VUndefined
      else if \<not> is_object current then VUndefined
      else walk_parts (js_get current part) parts)"

definition getValueAtPath :: "jsval \<Rightarrow> string \<Rightarrow> jsval" where
  "getValueAtPath obj p =
     (if p = [] then obj
      else if \<not> truthy obj \<or> \<not> is_object obj then VUndefined
      else walk_parts obj (segments p))"

text \<open>The body check at the end of \<open>validateResponse\<close>, for the entry that was found.\<close>

definition check_body :: "ResponseValidators \<Rightarrow> jsval \<Rightarrow> ValidationResult" where
  "check_body responseValidator body =
     (case rv_body responseValidator of
        None \<Rightarrow> \<lparr>valid = True, errors = None\<rparr>
      | Some validate \<Rightarrow>
          (case validate body of
             (False, Some errs) \<Rightarrow>
               \<lparr>valid = False,
                errors = Some (map (\<lambda>err.
                   \<lparr>ve_path = instancePath err,
                    ve_message = (case eo_message err of
                                    None \<Rightarrow> ''Validation failed''
                                  | Some m \<Rightarrow> if m = [] then ''Validation failed'' else m),
                    ve_keyword = Some (eo_keyword err),
                    ve_expected = Some (eo_params err),
                    ve_actual = Some (getValueAtPath body (instancePath err))\<rparr>) errs)\<rparr>
           | _ \<Rightarrow> \<lparr>valid = True, errors = None\<rparr>))"

text \<open>
  The status lookup
  \<^verbatim>\<open>responses[statusCode] || responses['default'] || responses[`${statusCode[0]}XX`]\<close>;
  an entry of the table is an object, so it is truthy whenever it is there.
\<close>

definition status_validator ::
  "(string \<times> ResponseValidators) list \<Rightarrow> string \<Rightarrow> ResponseValidators option" where
  "status_validator rs statusCode =
     (case map_of rs statusCode of
        Some v \<Rightarrow> Some v
      | None \<Rightarrow>
          (case map_of rs ''default'' of
             Some v \<Rightarrow> Some v
           | None \<Rightarrow>
               map_of rs ((case statusCode of [] \<Rightarrow> ''undefined'' | c # _ \<Rightarrow> [c]) @ ''XX'')))"

definition validateResponse ::
  "builtins \<Rightarrow> jsval \<Rightarrow> CompiledValidators \<Rightarrow> error + ValidationResult" where
  "validateResponse b response validators =
     (case parseResponse b response of
        Inl e \<Rightarrow> Inl e
      | Inr parsed \<Rightarrow>
          (let specPaths = map fst validators
           in case matchPath (pr_path parsed) specPaths of
                None \<Rightarrow>
                  Inr \<lparr>valid = False,
                       errors = Some [\<lparr>ve_path = '''',
                         ve_message = ''No matching path found in OpenAPI spec for ''
                            @ pr_method parsed @ '' '' @ pr_path parsed,
                         ve_keyword = None,
                         ve_expected = Some (VArr (map VStr specPaths)),
                         ve_actual = Some (VStr (pr_path parsed))\<rparr>]\<rparr>
              | Some pathMatch \<Rightarrow>
                  (let method = toLowerCase (pr_method parsed);
                       statusCode = string_of_int (pr_status parsed)
                   in case (case map_of validators (matched pathMatch) of
                              None \<Rightarrow> None
                            | Some methods \<Rightarrow> map_of methods method) of
                        None \<Rightarrow>
                          Inr \<lparr>valid = False,
                               errors = Some [\<lparr>ve_path = '''',
                                 ve_message = ''No '' @ pr_method parsed
                                    @ '' operation defined for '' @ matched pathMatch,
                                 ve_keyword = None,
                                 ve_expected = None,
                                 ve_actual = Some (VStr method)\<rparr>]\<rparr>
                      | Some pathValidators \<Rightarrow>
                          (case status_validator (responses pathValidators) statusCode of
                             None \<Rightarrow>
                               Inr \<lparr>valid = False,
                                    errors = Some [\<lparr>ve_path = '''',
                                      ve_message = ''No response schema defined for ''
                                         @ pr_method parsed @ '' '' @ matched pathMatch
                                         @ '' with status '' @ statusCode,
                                      ve_keyword = None,
                                      ve_expected =
                                        Some (VArr (map (VStr \<circ> fst) (responses pathValidators))),
                                      ve_actual = Some (VStr statusCode)\<rparr>]\<rparr>
                           | Some responseValidator \<Rightarrow>
                               Inr (check_body responseValidator (pr_body parsed))))))"

section \<open>The assertion (src/openapi\_assertions.ts)\<close>

record RegisterOptions =
  reportCoverage :: "bool option"
  exportCoverage :: "bool option"

text \<open>
  The static fields of \<open>OpenApiAssertions\<close> and the tracker singleton of the coverage
  module: the state every call reads and writes.
\<close>

record assertions_state =
  validators :: "CompiledValidators option"
  hasRegistered :: bool
  coverageOptions :: RegisterOptions
  coverageTracker :: CoverageTracker

definition initial_state :: assertions_state where
  "initial_state =
     \<lparr>validators = None, hasRegistered = False,
      coverageOptions = \<lparr>reportCoverage = None, exportCoverage = None\<rparr>,
      coverageTracker = new_CoverageTracker\<rparr>"

definition coverage_enabled :: "RegisterOptions \<Rightarrow> bool" where
  "coverage_enabled options = (reportCoverage options = Some True \<or> exportCoverage options = Some True)"

text \<open>
  \<open>registerSpecs\<close>. Reading and parsing the files is outside the model: \<open>built\<close> is what
  \<open>buildValidatorsSync\<close> returns, or the error it throws, after the first two
  assignments.
\<close>

definition registerSpecs ::
  "assertions_state \<Rightarrow> (error + CompiledValidators \<times> CoverageEntry list) \<Rightarrow> RegisterOptions
     \<Rightarrow> (error + unit) \<times> assertions_state" where
  "registerSpecs st built options =
     (let st1 = st\<lparr>hasRegistered := True, coverageOptions := options\<rparr>
      in case built of
           Inl e \<Rightarrow> (Inl e, st1)
         | Inr (vs, coverageEntries) \<Rightarrow>
             (let st2 = st1\<lparr>validators := Some vs\<rparr>
              in if coverage_enabled options
                 then (Inr (), st2\<lparr>coverageTracker :=
                         enableReporting (registerEndpoints (coverageTracker st2) coverageEntries)
                           (reportCoverage options = Some True)
                           (exportCoverage options = Some True)\<rparr>)
                 else (Inr (), st2)))"

definition reset :: "assertions_state \<Rightarrow> assertions_state" where
  "reset st = st\<lparr>validators := None, hasRegistered := False,
                 coverageOptions := \<lparr>reportCoverage = None, exportCoverage = None\<rparr>\<rparr>"

definition not_registered :: "error" where
  "not_registered =
     Error (''Cannot validate responses without defining API schemas. ''
            @ ''Please configure the plugin with schemas.'')"

text \<open>
  The coverage step of \<open>isValidResponse\<close>; an error of \<open>parseResponse\<close> is caught and
  ignored.
\<close>

definition record_response ::
  "builtins \<Rightarrow> assertions_state \<Rightarrow> CompiledValidators \<Rightarrow> jsval \<Rightarrow> assertions_state" where
  "record_response b st vs response =
     (case parseResponse b response of
        Inl _ \<Rightarrow> st
      | Inr parsed \<Rightarrow>
          (case matchPath (pr_path parsed) (map fst vs) of
             None \<Rightarrow> st
           | Some pathMatch \<Rightarrow>
               st\<lparr>coverageTracker :=
                    recordCoverage (coverageTracker st) (matched pathMatch) (pr_method parsed)
                      (string_of_int (pr_status parsed))\<rparr>))"

text \<open>
  \<open>isValidResponse\<close>: the outcome (\<open>Inl\<close> is a throw) and the state after the call.
\<close>

definition isValidResponse ::
  "builtins \<Rightarrow> assertions_state \<Rightarrow> jsval
     \<Rightarrow> (error + unit) \<times> assertions_state" where
  "isValidResponse b st response =
     (if \<not> hasRegistered st then (Inl not_registered, st)
      else (case validators st of
              None \<Rightarrow> (Inl not_registered, st)
            | Some vs \<Rightarrow>
                (case validateResponse b response vs of
                   Inl e \<Rightarrow> (Inl e, st)
                 | Inr result \<Rightarrow>
                     (let st' = (if coverage_enabled (coverageOptions st)
                                 then record_response b st vs response else st)
                      in if \<not> valid result then (Inl (AssertionError (errors result)), st')
                         else (Inr (), st')))))"

text \<open>A run: the calls on the class, in order, from the state of a fresh process.\<close>

datatype assertion_call =
  RegisterSpecs "error + CompiledValidators \<times> CoverageEntry list"
    RegisterOptions
| Reset
| IsValidResponse jsval

fun assertion_step :: "builtins \<Rightarrow> assertions_state \<Rightarrow> assertion_call \<Rightarrow> assertions_state" where
  "assertion_step b st (RegisterSpecs built options) = snd (registerSpecs st built options)"
| "assertion_step b st Reset = reset st"
| "assertion_step b st (IsValidResponse response) = snd (isValidResponse b st response)"

definition assertion_run ::
  "builtins \<Rightarrow> assertions_state \<Rightarrow> assertion_call list \<Rightarrow> assertions_state" where
  "assertion_run b st calls = foldl (assertion_step b) st calls"

text \<open>
  An instance of the built-ins, for evaluating examples: a string of digits denotes its
  number and every other string \<^verbatim>\<open>NaN\<close>, the source text of every function is
  \<^verbatim>\<open>function () { [native code] }\<close>, and the \<^verbatim>\<open>URL\<close> constructor always throws. The
  examples of this theory have numbers as statuses and paths without a host, and they
  convert no function, so that none of the three is consulted.
\<close>

definition example_builtins :: builtins where
  "example_builtins =
     \<lparr>StringToNumber = (\<lambda>s. if s \<noteq> [] \<and> list_all is_digit s
          then Some (int (foldl (\<lambda>a c. 10 * a + (of_char c - 48)) 0 s)) else None),
      Function_toString = (\<lambda>v. ''function () { [native code] }''),
      URL_pathname = (\<lambda>s. None)\<rparr>"

text \<open>
  Words of the specification of the response normalizer, for the comparison with
  \<open>parseResponse\<close>: the wrapper shape (an object carrying a nested \<open>response\<close> object),
  the value under the wrappers, the four shapes that are read directly, a direct shape
  whose source member is an object and whose path member is a string or absent, and a
  direct shape whose method, status and header values convert to a primitive.
\<close>

definition wrapper_shape :: "jsval \<Rightarrow> bool" where
  "wrapper_shape v =
     (truthy v \<and> is_object v \<and> js_in v ''response'' \<and> truthy (js_get v ''response'')
      \<and> is_object (js_get v ''response''))"

function unwrapped :: "jsval \<Rightarrow> jsval" where
  "unwrapped v = (if wrapper_shape v then unwrapped (js_get v ''response'') else v)"
  by pat_completeness auto
termination
  by (relation "measure size") (auto simp: size_js_get wrapper_shape_def)

declare unwrapped.simps [simp del]

definition direct_shape :: "jsval \<Rightarrow> bool" where
  "direct_shape v =
     ((js_in v ''request'' \<and> js_in v ''statusCode'')
      \<or> (js_in v ''data'' \<and> js_in v ''config'' \<and> js_in v ''status'')
      \<or> (js_in v ''body'' \<and> js_in v ''req'' \<and> js_in v ''statusCode'')
      \<or> js_in v ''status'' \<or> js_in v ''statusCode'')"

fun is_record :: "jsval \<Rightarrow> bool" where
  "is_record (VObj _) = True"
| "is_record _ = False"

fun string_or_falsy :: "jsval \<Rightarrow> bool" where
  "string_or_falsy (VStr _) = True"
| "string_or_falsy v = (\<not> truthy v)"

definition typed_source :: "jsval \<Rightarrow> bool" where
  "typed_source v =
     (if js_in v ''request'' \<and> js_in v ''statusCode''
      then is_record (js_get v ''request'') \<and> string_or_falsy (js_get (js_get v ''request'') ''url'')
      else if js_in v ''data'' \<and> js_in v ''config'' \<and> js_in v ''status''
      then is_record (js_get v ''config'') \<and> string_or_falsy (js_get (js_get v ''config'') ''url'')
      else if js_in v ''body'' \<and> js_in v ''req'' \<and> js_in v ''statusCode''
      then is_record (js_get v ''req'') \<and> string_or_falsy (js_get (js_get v ''req'') ''path'')
      else string_or_falsy (js_get v ''url'')
           \<and> (truthy (js_get v ''url'') \<or> string_or_falsy (js_get v ''path'')))"

text \<open>
  A value that \<^verbatim>\<open>String\<close> and \<^verbatim>\<open>Number\<close> convert without a throw: a primitive, a
  function, an array of such values, and an object with a \<open>toString\<close> or a \<open>valueOf\<close>
  that gives a primitive.
\<close>

fun converts :: "jsval \<Rightarrow> bool" where
  "converts (VArr xs) = list_all converts xs"
| "converts (VObj kvs) =
     (method_result kvs ''toString'' \<noteq> None \<or> method_result kvs ''valueOf'' \<noteq> None)"
| "converts _ = True"

text \<open>
  The member of a direct shape that the method and the path are read from, and the
  value that is handed to \<^verbatim>\<open>Number\<close> as the status.
\<close>

definition source_member :: "jsval \<Rightarrow> jsval" where
  "source_member v =
     (if js_in v ''request'' \<and> js_in v ''statusCode'' then js_get v ''request''
      else if js_in v ''data'' \<and> js_in v ''config'' \<and> js_in v ''status'' then js_get v ''config''
      else if js_in v ''body'' \<and> js_in v ''req'' \<and> js_in v ''statusCode'' then js_get v ''req''
      else v)"

definition status_member :: "jsval \<Rightarrow> jsval" where
  "status_member v =
     (if js_in v ''request'' \<and> js_in v ''statusCode'' then js_get v ''statusCode''
      else if js_in v ''data'' \<and> js_in v ''config'' \<and> js_in v ''status'' then js_get v ''status''
      else if js_in v ''body'' \<and> js_in v ''req'' \<and> js_in v ''statusCode'' then js_get v ''statusCode''
      else or_else (js_get v ''status'') (js_get v ''statusCode''))"

definition members_convert :: "jsval \<Rightarrow> bool" where
  "members_convert v =
     (converts (or_else (js_get (source_member v) ''method'') (VStr ''GET''))
      \<and> converts (status_member v)
      \<and> list_all (\<lambda>kv. converts (snd kv)) (entries (or_else (js_get v ''headers'') (VObj []))))"

text \<open>
  Words of the specification of the status lookup: the first of the keys, in the order
  given, that the table has.
\<close>

fun first_present :: "(string \<times> 'a) list \<Rightarrow> string list \<Rightarrow> 'a option" where
  "first_present rs [] = None"
| "first_present rs (k # ks) =
     (case map_of rs k of Some v \<Rightarrow> Some v | None \<Rightarrow> first_present rs ks)"

text \<open>
  The invariant of the covered set under the calls on the class: every key was made from
  a route, a method and the decimal numeral of a status number.
\<close>

definition status_keys :: "CoverageTracker \<Rightarrow> bool" where
  "status_keys t =
     (\<forall>k \<in> covered t. \<exists>route method n. k = makeKey route method (string_of_int n))"

section \<open>Example values\<close>

text \<open>
  A validator table with an exact status, the \<open>default\<close> key and a wildcard, the coverage
  entries that go with it, a body validator that rejects every body, and a response in
  the shape of the Japa API client.
\<close>

definition no_body :: ResponseValidators where
  "no_body = \<lparr>rv_body = None, rv_headers = None\<rparr>"

definition reject_all :: ValidateFunction where
  "reject_all body =
     (False, Some [\<lparr>instancePath = '''', eo_message = Some ''must be object'',
                    eo_keyword = ''type'', eo_params = VObj [(''type'', VStr ''object'')]\<rparr>])"

definition example_validators :: CompiledValidators where
  "example_validators =
     [(''/pets'', [(''get'', \<lparr>responses =
          [(''200'', \<lparr>rv_body = Some reject_all, rv_headers = None\<rparr>), (''default'', no_body)]\<rparr>)]),
      (''/ping'', [(''get'', \<lparr>responses = [(''200'', no_body), (''4XX'', no_body)]\<rparr>)]),
      (''/any'', [(''get'', \<lparr>responses = [(''default'', no_body)]\<rparr>)])]"

definition example_entries :: "CoverageEntry list" where
  "example_entries =
     [\<lparr>ce_route = ''/pets'', ce_method = ''GET'', ce_statuses = [''200'', ''default'']\<rparr>,
      \<lparr>ce_route = ''/ping'', ce_method = ''GET'', ce_statuses = [''200'', ''4XX'']\<rparr>,
      \<lparr>ce_route = ''/any'', ce_method = ''GET'', ce_statuses = [''default'']\<rparr>]"

definition japa_response :: "string \<Rightarrow> string \<Rightarrow> int \<Rightarrow> jsval" where
  "japa_response method url status =
     VObj [(''request'', VObj [(''method'', VStr method), (''url'', VStr url)]),
           (''statusCode'', VNum status),
           (''headers'', VObj []),
           (''body'', VFun (VObj []))]"

definition example_registration :: assertion_call where
  "example_registration =
     RegisterSpecs (Inr (example_validators, example_entries))
       \<lparr>reportCoverage = Some True, exportCoverage = None\<rparr>"

definition example_run :: "assertion_call list" where
  "example_run =
     [example_registration,
      IsValidResponse (japa_response ''GET'' ''/any'' 200),
      IsValidResponse (japa_response ''GET'' ''/ping'' 404)]"

section \<open>Schema builder (src/schema\_builder.ts)\<close>

text \<open>
  A value of the specification file, as \<^verbatim>\<open>JSON.parse\<close> returns it: an object is the list
  of its entries in enumeration order. Numbers are integers, as for \<^typ>\<open>jsval\<close>. The keys of an
  object differ from one another.
\<close>

datatype json =
  JNull
| JBool bool
| JNum int
| JStr string
| JArr "json list"
| JObj "(string \<times> json) list"


subsection \<open>Reference resolution\<close>

text \<open>
  \<^verbatim>\<open>segment.replace(/~1/g, '/').replace(/~0/g, '~')\<close>: every \<open>~1\<close> from the left, then
  every \<open>~0\<close>.
\<close>

fun replace_tilde :: "char \<Rightarrow> char \<Rightarrow> string \<Rightarrow> string" where
  "replace_tilde d r (a # b # s) =
     (if a = CHR ''~'' \<and> b = d then r # replace_tilde d r s else a # replace_tilde d r (b # s))"
| "replace_tilde d r s = s"

definition decode_segment :: "string \<Rightarrow> string" where
  "decode_segment segment =
     replace_tilde CHR ''0'' CHR ''~'' (replace_tilde CHR ''1'' CHR ''/'' segment)"

text \<open>
  What following a pointer gives: a value of the document, nothing (\<^verbatim>\<open>undefined\<close>), or a
  value that is not one of the document, because a segment names a member that a value
  inherits from its prototype (the test \<^verbatim>\<open>decoded in current\<close> looks at the prototypes
  too, and \<^verbatim>\<open>'toString' in {}\<close> holds).
\<close>

datatype target =
  Target json
| NoTarget
| OutsideDocument

text \<open>The names that every object inherits from \<^verbatim>\<open>Object.prototype\<close>.\<close>

definition Object_prototype_names :: "string list" where
  "Object_prototype_names =
     [''constructor'', ''__defineGetter__'', ''__defineSetter__'', ''hasOwnProperty'',
      ''__lookupGetter__'', ''__lookupSetter__'', ''isPrototypeOf'', ''propertyIsEnumerable'',
      ''toString'', ''valueOf'', ''__proto__'', ''toLocaleString'']"

text \<open>
  The loop of \<open>resolveLocalRef\<close>. The test
  \<^verbatim>\<open>current && typeof current === 'object' && decoded in current\<close> holds for an object
  with that key, and for an array with that index or the key \<open>length\<close>; there the walk
  goes on in the document. It holds too for a name that the value inherits: on an object
  these are the names of \<^verbatim>\<open>Object.prototype\<close>; on an array, whose methods depend on the
  version of the engine, every name that is not an index or \<open>length\<close> is taken to leave
  the document.
\<close>

fun walk_pointer :: "json \<Rightarrow> string list \<Rightarrow> target" where
  "walk_pointer current [] = Target current"
| "walk_pointer current (segment # rest) =
     (case current of
        JObj kvs \<Rightarrow>
          (case map_of kvs (decode_segment segment) of
             Some v \<Rightarrow> walk_pointer v rest
           | None \<Rightarrow>
               if decode_segment segment \<in> set Object_prototype_names
               then OutsideDocument else NoTarget)
      | JArr xs \<Rightarrow>
          (if decode_segment segment = ''length'' then walk_pointer (JNum (int (length xs))) rest
           else (case array_index (decode_segment segment) of
                   Some i \<Rightarrow> if i < length xs then walk_pointer (xs ! i) rest else NoTarget
                 | None \<Rightarrow> OutsideDocument))
      | _ \<Rightarrow> NoTarget)"

definition resolveLocalRef :: "string \<Rightarrow> json \<Rightarrow> target" where
  "resolveLocalRef ref root = walk_pointer root (split CHR ''/'' (drop 2 ref))"

text \<open>
  The target of an object's \<open>$ref\<close>, when \<open>resolveRefsInObject\<close> replaces the object:
  the \<open>$ref\<close> is a string, starts with \<open>#/\<close>, and the pointer resolves.
\<close>

definition local_target :: "(string \<times> json) list \<Rightarrow> json \<Rightarrow> target" where
  "local_target record root =
     (case map_of record ''$ref'' of
        Some (JStr ref) \<Rightarrow> if startsWith ref ''#/'' then resolveLocalRef ref root else NoTarget
      | _ \<Rightarrow> NoTarget)"

text \<open>
  The entries that the spread \<^verbatim>\<open>{ ...v }\<close> copies, and \<^verbatim>\<open>{ ...v, ...rest }\<close>: the entries
  of \<open>rest\<close> are defined over those of \<open>v\<close>, in order. A spread defines the properties of
  the new object, whatever their names.
\<close>

fun spread :: "json \<Rightarrow> (string \<times> json) list" where
  "spread (JObj kvs) = kvs"
| "spread (JArr xs) = map (\<lambda>i. (string_of_nat i, xs ! i)) [0..<length xs]"
| "spread (JStr s) = map (\<lambda>i. (string_of_nat i, JStr [s ! i])) [0..<length s]"
| "spread _ = []"

definition spread_over :: "(string \<times> json) list \<Rightarrow> (string \<times> json) list \<Rightarrow> (string \<times> json) list" where
  "spread_over base rest = foldl (\<lambda>acc (k, v). AList.update k v acc) base rest"

text \<open>\<^verbatim>\<open>const { $ref: _ref, ...rest } = record\<close>\<close>

definition without_ref :: "(string \<times> json) list \<Rightarrow> (string \<times> json) list" where
  "without_ref record = filter (\<lambda>kv. fst kv \<noteq> ''$ref'') record"

text \<open>
  What a call of the resolver comes to. The source recurses without a bound, and on a
  document whose references form a cycle it never returns (the engine ends it with a
  stack overflow): the model takes the depth of recursion that it may use, and is
  \<open>Unfinished\<close> when that depth is not enough. It is \<open>Outside\<close> when the call meets a
  value that is not one of the document, which the type \<^typ>\<open>json\<close> does not describe.
\<close>

datatype 'a outcome =
  Returns 'a
| Unfinished
| Outside

fun and_then :: "'a outcome \<Rightarrow> ('a \<Rightarrow> 'b outcome) \<Rightarrow> 'b outcome" where
  "and_then (Returns v) f = f v"
| "and_then Unfinished f = Unfinished"
| "and_then Outside f = Outside"

text \<open>The calls on the elements of a list, in order: the first that does not return ends it.\<close>

fun collect :: "'a outcome list \<Rightarrow> 'a list outcome" where
  "collect [] = Returns []"
| "collect (x # xs) = and_then x (\<lambda>v. and_then (collect xs) (\<lambda>vs. Returns (v # vs)))"

text \<open>
  The assignments \<^verbatim>\<open>result[key] = value\<close> of the last loop, on the object \<open>result\<close> that
  starts empty, for the entries of an object (whose keys differ). The key \<open>__proto__\<close>
  is the exception: the assignment reaches the setter of \<^verbatim>\<open>Object.prototype\<close>, which
  ignores a value that is neither an object nor \<^verbatim>\<open>null\<close>, and makes any other value the
  prototype of \<open>result\<close>, which is then no value of the model.
\<close>

fun sets_prototype :: "json \<Rightarrow> bool" where
  "sets_prototype JNull = True"
| "sets_prototype (JArr _) = True"
| "sets_prototype (JObj _) = True"
| "sets_prototype _ = False"

definition assign_entries :: "(string \<times> json) list \<Rightarrow> (string \<times> json) list outcome" where
  "assign_entries kvs =
     (if list_ex (\<lambda>kv. fst kv = ''__proto__'' \<and> sets_prototype (snd kv)) kvs then Outside
      else Returns (filter (\<lambda>kv. fst kv \<noteq> ''__proto__'') kvs))"

text \<open>\<open>resolveRefsInObject\<close>, with the bound on the depth of its recursion.\<close>

fun resolveRefsInObject :: "nat \<Rightarrow> json \<Rightarrow> json \<Rightarrow> json outcome" where
  "resolveRefsInObject 0 obj root = Unfinished"
| "resolveRefsInObject (Suc n) obj root =
     (case obj of
        JArr items \<Rightarrow>
          and_then (collect (map (\<lambda>item. resolveRefsInObject n item root) items))
            (\<lambda>rs. Returns (JArr rs))
      | JObj record \<Rightarrow>
          (case local_target record root of
             Target resolved \<Rightarrow>
               and_then (resolveRefsInObject n resolved root)
                 (\<lambda>r. if without_ref record \<noteq> []
                      then Returns (JObj (spread_over (spread r) (without_ref record)))
                      else Returns r)
           | OutsideDocument \<Rightarrow> Outside
           | NoTarget \<Rightarrow>
               and_then (collect (map (\<lambda>kv. resolveRefsInObject n (snd kv) root) record))
                 (\<lambda>vs. and_then (assign_entries (zip (map fst record) vs))
                    (\<lambda>out. Returns (JObj out))))
      | _ \<Rightarrow> Returns obj)"

text \<open>\<open>resolveRefsSync\<close>: the document is resolved against itself.\<close>

definition resolveRefsSync :: "nat \<Rightarrow> json \<Rightarrow> json outcome" where
  "resolveRefsSync n spec = resolveRefsInObject n spec spec"











subsection \<open>Schema sanitizer and compiler\<close>







subsection \<open>Validator compiler\<close>

text \<open>
  The types of src/types.ts, with the fields that \<open>buildPathValidators\<close> reads. A path
  item is the list of its operations by method name.
\<close>

record MediaType =
  schema :: "json option"



















lemma split_ne: "split c s \<noteq> []"
  by (induction s) (auto split: list.splits)

lemma split_append: "split c (xs @ c # ys) = split c xs @ split c ys"
  by (induction xs) (auto split: list.splits simp: split_ne)

lemma split_absent: "c \<notin> set s \<Longrightarrow> split c s = [s]"
  by (induction s) auto

lemma hd_split_append: "hd (split c (p @ c # q)) = hd (split c p)"
  by (simp add: split_append split_ne)

lemma segments_slash: "segments (s @ ''/'') = segments s"
  using split_append[of "CHR ''/''" s "[]"] by (simp add: segments_def)

lemma segments_strip: "segments (strip_trailing_slash s) = segments s"
proof (cases "s \<noteq> [] \<and> last s = CHR ''/''")
  case True
  then have "s = butlast s @ ''/''" by (metis append_butlast_last_id)
  then have "segments s = segments (butlast s)" using segments_slash by metis
  with True show ?thesis by (simp add: strip_trailing_slash_def)
next
  case False
  then show ?thesis by (auto simp add: strip_trailing_slash_def)
qed

lemma segments_cleanPath: "segments (cleanPath p) = segments (hd (split CHR ''?'' p))"
proof (cases "strip_trailing_slash (hd (split CHR ''?'' p)) = []")
  case True
  have "segments (hd (split CHR ''?'' p)) = segments []"
    using segments_strip[of "hd (split CHR ''?'' p)"] True by simp
  moreover have "segments ''/'' = segments []" by (simp add: segments_def)
  ultimately show ?thesis using True by (simp add: cleanPath_def)
next
  case False
  then show ?thesis by (simp add: cleanPath_def segments_strip)
qed

lemma tryMatch_segments: "segments a = segments b \<Longrightarrow> tryMatch a t = tryMatch b t"
  by (simp add: tryMatch_def)

lemma matchPath_segments:
  "segments (cleanPath a) = segments (cleanPath b) \<Longrightarrow> matchPath a T = matchPath b T"
proof -
  assume "segments (cleanPath a) = segments (cleanPath b)"
  then have "tryMatch (cleanPath a) = tryMatch (cleanPath b)"
    using tryMatch_segments by blast
  then show ?thesis by (simp add: matchPath_def)
qed

lemma hd_split_slash:
  "segments (hd (split CHR ''?'' (p @ ''/''))) = segments (hd (split CHR ''?'' p))"
proof (cases "CHR ''?'' \<in> set p")
  case True
  then obtain a b where p: "p = a @ CHR ''?'' # b" by (meson split_list)
  then have "p @ ''/'' = a @ CHR ''?'' # (b @ ''/'')" by simp
  then show ?thesis using p hd_split_append by metis
next
  case False
  then have "split CHR ''?'' p = [p]" "split CHR ''?'' (p @ ''/'') = [p @ ''/'']"
    by (simp_all add: split_absent)
  then show ?thesis by (simp add: segments_slash)
qed

text \<open>
  Claim C7. Appending a query string (\<open>?\<close> and anything after it) or one trailing slash
  to the observed path changes nothing in the result of \<open>matchPath\<close>, for every path
  and every list of templates; and the path that is a single slash is cleaned to itself.
\<close>

theorem matchPath_query_slash_invariant: "matchPath (p @ ''?'' @ q) T = matchPath p T
   \<and> matchPath (p @ ''/'') T = matchPath p T
   \<and> cleanPath ''/'' = ''/''"
proof (intro conjI)
  have "hd (split CHR ''?'' (p @ ''?'' @ q)) = hd (split CHR ''?'' p)"
    using hd_split_append[of "CHR ''?''" p q] by simp
  then show "matchPath (p @ ''?'' @ q) T = matchPath p T"
    by (intro matchPath_segments) (simp add: segments_cleanPath)
  show "matchPath (p @ ''/'') T = matchPath p T"
    by (intro matchPath_segments) (simp add: segments_cleanPath hd_split_slash)
  show "cleanPath ''/'' = ''/''"
    by (simp add: cleanPath_def strip_trailing_slash_def)
qed

lemma paramMatch_iff:
  "paramMatch s = Some n \<longleftrightarrow> s = CHR ''{'' # n @ ''}'' \<and> n \<noteq> [] \<and> list_all is_word_char n"
proof
  assume "paramMatch s = Some n"
  then obtain c r where s: "s = c # r" and c: "c = CHR ''{''" and r: "r \<noteq> []"
    and l: "last r = CHR ''}''" and b: "butlast r \<noteq> []" "list_all is_word_char (butlast r)"
    and n: "n = butlast r"
    by (auto simp: paramMatch_def split: list.splits if_splits)
  from r l have "r = butlast r @ ''}''" by (metis append_butlast_last_id)
  with s c n b show "s = CHR ''{'' # n @ ''}'' \<and> n \<noteq> [] \<and> list_all is_word_char n" by simp
next
  assume "s = CHR ''{'' # n @ ''}'' \<and> n \<noteq> [] \<and> list_all is_word_char n"
  then show "paramMatch s = Some n" by (simp add: paramMatch_def)
qed

lemma match_loop_accepts:
  "match_loop zs ps sc \<noteq> None \<longleftrightarrow> (\<forall>(s, r) \<in> set zs. paramMatch s \<noteq> None \<or> s = r)"
  by (induction zs ps sc rule: match_loop.induct) (auto split: option.splits)

lemma match_loop_score:
  "match_loop zs ps sc = Some (ps', sc') \<Longrightarrow>
     sc' = sc + 10 * int (length (filter (\<lambda>z. paramMatch (fst z) = None) zs))
              + int (length (filter (\<lambda>z. paramMatch (fst z) \<noteq> None) zs))"
  by (induction zs ps sc rule: match_loop.induct) (auto split: option.splits if_splits)

lemma match_loop_unbound:
  "match_loop zs ps sc = Some (ps', sc') \<Longrightarrow> \<forall>z \<in> set zs. paramMatch (fst z) \<noteq> Some n \<Longrightarrow>
     map_of ps' n = map_of ps n"
  by (induction zs ps sc rule: match_loop.induct)
     (auto split: option.splits if_splits simp: update_conv' assign_string_def)

lemma match_loop_binding:
  "match_loop zs ps sc = Some (ps', sc') \<Longrightarrow> i < length zs \<Longrightarrow>
   paramMatch (fst (zs ! i)) = Some n \<Longrightarrow> n \<noteq> ''__proto__'' \<Longrightarrow>
   (\<forall>j. i < j \<and> j < length zs \<longrightarrow> paramMatch (fst (zs ! j)) \<noteq> Some n) \<Longrightarrow>
   map_of ps' n = Some (snd (zs ! i))"
proof (induction zs ps sc arbitrary: i rule: match_loop.induct)
  case (1 ps sc)
  then show ?case by simp
next
  case (2 specSegment requestSegment rest ps sc)
  show ?case
  proof (cases i)
    case 0
    with "2.prems" have pm: "paramMatch specSegment = Some n" by simp
    from "2.prems"(5) 0 have later: "\<forall>z \<in> set rest. paramMatch (fst z) \<noteq> Some n"
      by (fastforce simp: in_set_conv_nth)
    from "2.prems"(1) pm
    have "match_loop rest (assign_string n requestSegment ps) (sc + 1) = Some (ps', sc')" by simp
    from match_loop_unbound[OF this later] 0 "2.prems"(4) show ?thesis
      by (simp add: update_conv' assign_string_def)
  next
    case (Suc k)
    have later: "\<forall>j. k < j \<and> j < length rest \<longrightarrow> paramMatch (fst (rest ! j)) \<noteq> Some n"
      using "2.prems"(5) Suc by fastforce
    show ?thesis
    proof (cases "paramMatch specSegment")
      case None
      with "2.prems"(1) have eq: "specSegment = requestSegment"
        and run: "match_loop rest ps (sc + 10) = Some (ps', sc')" by (auto split: if_splits)
      from "2.IH"(1)[OF None eq run, of k] "2.prems" Suc later show ?thesis by simp
    next
      case (Some name)
      with "2.prems"(1)
      have run: "match_loop rest (assign_string name requestSegment ps) (sc + 1) = Some (ps', sc')"
        by simp
      from "2.IH"(2)[OF Some run, of k] "2.prems" Suc later show ?thesis by simp
    qed
  qed
qed

lemma assign_string_keys:
  "fst ` set (assign_string k v ps) = fst ` set ps \<union> (if k = ''__proto__'' then {} else {k})"
  by (simp add: assign_string_def dom_update)

lemma match_loop_keys:
  "match_loop zs ps sc = Some (ps', sc') \<Longrightarrow>
     fst ` set ps' = fst ` set ps
        \<union> {n. n \<noteq> ''__proto__'' \<and> (\<exists>z \<in> set zs. paramMatch (fst z) = Some n)}"
proof (induction zs ps sc rule: match_loop.induct)
  case (1 ps sc)
  then show ?case by simp
next
  case (2 specSegment requestSegment rest ps sc)
  show ?case
  proof (cases "paramMatch specSegment")
    case None
    with "2.prems" have eq: "specSegment = requestSegment"
      and run: "match_loop rest ps (sc + 10) = Some (ps', sc')" by (auto split: if_splits)
    from "2.IH"(1)[OF None eq run] None show ?thesis by auto
  next
    case (Some name)
    with "2.prems"
    have run: "match_loop rest (assign_string name requestSegment ps) (sc + 1) = Some (ps', sc')"
      by simp
    from "2.IH"(2)[OF Some run] Some show ?thesis
      unfolding assign_string_keys by (auto split: if_splits)
  qed
qed

text \<open>The last position of a list at which a property holds, from any position where it holds.\<close>

lemma last_position:
  assumes "i < length xs" and "P (xs ! i)"
  shows "\<exists>j. i \<le> j \<and> j < length xs \<and> P (xs ! j) \<and> (\<forall>k. j < k \<and> k < length xs \<longrightarrow> \<not> P (xs ! k))"
proof -
  define S where "S = {j. j < length xs \<and> P (xs ! j)}"
  have fin: "finite S" unfolding S_def by simp
  have mem: "i \<in> S" using assms by (simp add: S_def)
  then have ne: "S \<noteq> {}" by blast
  have "Max S \<in> S" using fin ne by (rule Max_in)
  moreover have "i \<le> Max S" using fin mem by (rule Max_ge)
  moreover have "\<not> P (xs ! k)" if "Max S < k \<and> k < length xs" for k
  proof
    assume "P (xs ! k)"
    with that have "k \<in> S" by (simp add: S_def)
    with fin have "k \<le> Max S" by (rule Max_ge)
    with that show False by simp
  qed
  ultimately show ?thesis unfolding S_def by blast
qed

lemma tryMatch_specPath: "tryMatch c t = Some m \<Longrightarrow> specPath m = t"
  by (auto simp: tryMatch_def Let_def split: if_splits option.splits)

lemma hd_filter_map_filter:
  "filter P (List.map_filter g T) \<noteq> [] \<Longrightarrow>
   \<exists>i < length T. g (T ! i) = Some (hd (filter P (List.map_filter g T)))
      \<and> (\<forall>j < i. \<forall>m'. g (T ! j) = Some m' \<longrightarrow> \<not> P m')"
proof (induction T)
  case Nil
  then show ?case by (simp add: map_filter_simps)
next
  case (Cons t T)
  show ?case
  proof (cases "\<exists>m. g t = Some m \<and> P m")
    case True
    then obtain m where "g t = Some m" "P m" by blast
    then have "g ((t # T) ! 0) = Some (hd (filter P (List.map_filter g (t # T))))"
      by (simp add: map_filter_simps)
    then show ?thesis by (intro exI[of _ 0]) simp
  next
    case False
    then have eq: "filter P (List.map_filter g (t # T)) = filter P (List.map_filter g T)"
      by (cases "g t") (auto simp: map_filter_simps)
    with Cons obtain i where i: "i < length T"
      "g (T ! i) = Some (hd (filter P (List.map_filter g T)))"
      "\<forall>j < i. \<forall>m'. g (T ! j) = Some m' \<longrightarrow> \<not> P m'" by auto
    have "\<forall>j < Suc i. \<forall>m'. g ((t # T) ! j) = Some m' \<longrightarrow> \<not> P m'"
    proof (intro allI impI)
      fix j m' assume "j < Suc i" "g ((t # T) ! j) = Some m'"
      then show "\<not> P m'" using False i(3) by (cases j) auto
    qed
    with i eq show ?thesis by (intro exI[of _ "Suc i"]) simp
  qed
qed

lemma hd_sort_key_first:
  fixes f :: "'a \<Rightarrow> int"
  assumes "ms \<noteq> []"
  defines "h \<equiv> hd (sort_key f ms)"
  shows "h \<in> set ms" and "\<forall>m \<in> set ms. f h \<le> f m"
    and "hd (filter (\<lambda>y. f y = f h) ms) = h"
proof -
  have ne: "sort_key f ms \<noteq> []" using assms(1) by (metis length_0_conv length_sort)
  then obtain r where s: "sort_key f ms = h # r" unfolding h_def by (cases "sort_key f ms") auto
  have "h \<in> set (sort_key f ms)" using s by simp
  then show "h \<in> set ms" by simp
  have "sorted (map f (sort_key f ms))" by (rule sorted_sort_key)
  then have "\<forall>m \<in> set r. f h \<le> f m" using s by simp
  then have "\<forall>m \<in> set (sort_key f ms). f h \<le> f m" using s by simp
  then show "\<forall>m \<in> set ms. f h \<le> f m" by simp
  have "filter (\<lambda>y. f y = f h) ms = filter (\<lambda>y. f y = f h) (sort_key f ms)"
    by (simp add: sort_key_stable)
  then show "hd (filter (\<lambda>y. f y = f h) ms) = h" using s by simp
qed

lemma map_filter_nth:
  "j < length T \<Longrightarrow> g (T ! j) = Some m \<Longrightarrow> m \<in> set (List.map_filter g T)"
  by (force simp: map_filter_def)

lemma tryMatch_score:
  "tryMatch c t = Some m \<Longrightarrow>
     score m = 10 * int (length (filter (\<lambda>s. paramMatch s = None) (segments t)))
               + int (length (filter (\<lambda>s. paramMatch s \<noteq> None) (segments t)))"
proof -
  assume a: "tryMatch c t = Some m"
  then have len: "length (segments c) = length (segments t)"
    by (auto simp: tryMatch_def Let_def split: if_splits)
  with a obtain ps where run: "match_loop (zip (segments t) (segments c)) [] 0 = Some (ps, score m)"
    by (auto simp: tryMatch_def Let_def split: if_splits option.splits)
  have cnt: "\<And>P. length (filter (\<lambda>z. P (fst z)) (zip (segments t) (segments c)))
      = length (filter P (segments t))"
  proof -
    fix P :: "string \<Rightarrow> bool"
    have "map fst (filter (\<lambda>z. P (fst z)) (zip (segments t) (segments c)))
        = filter P (map fst (zip (segments t) (segments c)))"
      by (simp add: filter_map comp_def)
    then have "length (map fst (filter (\<lambda>z. P (fst z)) (zip (segments t) (segments c))))
        = length (filter P (segments t))" using len by simp
    then show "length (filter (\<lambda>z. P (fst z)) (zip (segments t) (segments c)))
      = length (filter P (segments t))" by simp
  qed
  from match_loop_score[OF run]
  show ?thesis
    by (simp only: cnt[of "\<lambda>s. paramMatch s = None"] cnt[of "\<lambda>s. paramMatch s \<noteq> None"])
qed

lemma tryMatch_accepts:
  "tryMatch rp sp \<noteq> None \<longleftrightarrow>
     length (segments rp) = length (segments sp)
     \<and> (\<forall>i < length (segments sp).
           paramMatch (segments sp ! i) \<noteq> None \<or> segments sp ! i = segments rp ! i)"
proof (cases "length (segments rp) = length (segments sp)")
  case False
  then show ?thesis by (simp add: tryMatch_def)
next
  case True
  have "tryMatch rp sp \<noteq> None \<longleftrightarrow> match_loop (zip (segments sp) (segments rp)) [] 0 \<noteq> None"
    using True by (auto simp: tryMatch_def split: option.splits)
  also have "\<dots> \<longleftrightarrow> (\<forall>(s, r) \<in> set (zip (segments sp) (segments rp)). paramMatch s \<noteq> None \<or> s = r)"
    by (rule match_loop_accepts)
  also have "\<dots> \<longleftrightarrow> (\<forall>i < length (segments sp).
           paramMatch (segments sp ! i) \<noteq> None \<or> segments sp ! i = segments rp ! i)"
    using True by (auto simp: set_zip)
  finally show ?thesis using True by simp
qed

lemma tryMatch_loop:
  "tryMatch rp sp = Some m \<Longrightarrow>
     length (segments rp) = length (segments sp)
     \<and> match_loop (zip (segments sp) (segments rp)) [] 0 = Some (params m, score m)"
  by (auto simp: tryMatch_def Let_def split: if_splits option.splits)

lemma tryMatch_binding:
  assumes "tryMatch rp sp = Some m" and "i < length (segments sp)"
    and "paramMatch (segments sp ! i) = Some n" and "n \<noteq> ''__proto__''"
    and "\<forall>j. i < j \<and> j < length (segments sp) \<longrightarrow> paramMatch (segments sp ! j) \<noteq> Some n"
  shows "map_of (params m) n = Some (segments rp ! i)"
proof -
  from tryMatch_loop[OF assms(1)]
  have len: "length (segments rp) = length (segments sp)"
    and run: "match_loop (zip (segments sp) (segments rp)) [] 0 = Some (params m, score m)"
    by simp_all
  from match_loop_binding[OF run, of i n] assms(2-5) len show ?thesis by simp
qed

lemma tryMatch_keys:
  assumes "tryMatch rp sp = Some m"
  shows "fst ` set (params m)
     = {n. n \<noteq> ''__proto__'' \<and> (\<exists>j < length (segments sp). paramMatch (segments sp ! j) = Some n)}"
proof -
  from tryMatch_loop[OF assms]
  have len: "length (segments rp) = length (segments sp)"
    and run: "match_loop (zip (segments sp) (segments rp)) [] 0 = Some (params m, score m)"
    by simp_all
  have "{n. n \<noteq> ''__proto__''
            \<and> (\<exists>z \<in> set (zip (segments sp) (segments rp)). paramMatch (fst z) = Some n)}
      = {n. n \<noteq> ''__proto__'' \<and> (\<exists>j < length (segments sp). paramMatch (segments sp ! j) = Some n)}"
    using len by (auto simp: set_zip)
  with match_loop_keys[OF run] show ?thesis by simp
qed

text \<open>
  The value of a parameter name is the observed segment at the last position that
  carries the name: a later assignment to the same key replaces the earlier one.
\<close>

lemma tryMatch_last_binding:
  assumes "tryMatch rp sp = Some m" and "i < length (segments sp)"
    and "paramMatch (segments sp ! i) = Some n" and "n \<noteq> ''__proto__''"
  shows "\<exists>j. i \<le> j \<and> j < length (segments sp) \<and> segments sp ! j = segments sp ! i
           \<and> (\<forall>k. j < k \<and> k < length (segments sp) \<longrightarrow> segments sp ! k \<noteq> segments sp ! i)
           \<and> map_of (params m) n = Some (segments rp ! j)"
proof -
  from last_position[of i "segments sp" "\<lambda>s. paramMatch s = Some n", OF assms(2,3)]
  obtain j where j: "i \<le> j" "j < length (segments sp)" "paramMatch (segments sp ! j) = Some n"
    "\<forall>k. j < k \<and> k < length (segments sp) \<longrightarrow> paramMatch (segments sp ! k) \<noteq> Some n"
    by blast
  have same: "segments sp ! j = segments sp ! i"
    using j(3) assms(3) by (simp add: paramMatch_iff)
  have later: "\<forall>k. j < k \<and> k < length (segments sp) \<longrightarrow> segments sp ! k \<noteq> segments sp ! i"
    using j(4) assms(3) by auto
  from tryMatch_binding[OF assms(1) j(2) j(3) assms(4) j(4)] j(1,2) same later
  show ?thesis by blast
qed

lemma tryMatch_no_proto:
  assumes "tryMatch rp sp = Some m"
  shows "map_of (params m) ''__proto__'' = None"
proof -
  have "''__proto__'' \<notin> fst ` set (params m)"
    unfolding tryMatch_keys[OF assms] by simp
  then show ?thesis by (simp add: map_of_eq_None_iff)
qed

lemma matchPath_None:
  "matchPath p T = None \<longleftrightarrow> (\<forall>t \<in> set T. tryMatch (cleanPath p) t = None)"
  by (auto simp: matchPath_def Let_def map_filter_def filter_empty_conv)

lemma matchPath_best:
  assumes "matchPath p T = Some r"
  shows "\<exists>i m. i < length T \<and> tryMatch (cleanPath p) (T ! i) = Some m
           \<and> matched r = T ! i \<and> match_params r = params m
           \<and> score m = 10 * int (length (filter (\<lambda>s. paramMatch s = None) (segments (T ! i))))
                       + int (length (filter (\<lambda>s. paramMatch s \<noteq> None) (segments (T ! i))))
           \<and> (\<forall>j m'. j < length T \<and> tryMatch (cleanPath p) (T ! j) = Some m'
                 \<longrightarrow> score m' \<le> score m \<and> (score m' = score m \<longrightarrow> i \<le> j))"
proof -
  define g where "g = tryMatch (cleanPath p)"
  define ms where "ms = List.map_filter g T"
  define f where "f = (\<lambda>a::match_result. - score a)"
  define h where "h = hd (sort_key f ms)"
  from assms have ne: "ms \<noteq> []" and r: "r = \<lparr>matched = specPath h, match_params = params h\<rparr>"
    by (auto simp: matchPath_def Let_def ms_def g_def h_def f_def split: if_splits)
  note facts = hd_sort_key_first[OF ne, of f, folded h_def]
  have "filter (\<lambda>y. f y = f h) ms \<noteq> []"
    using facts(1) by (auto simp: filter_empty_conv)
  from hd_filter_map_filter[OF this[unfolded ms_def]] facts(3)
  obtain i where i: "i < length T" "g (T ! i) = Some h"
    "\<forall>j < i. \<forall>m'. g (T ! j) = Some m' \<longrightarrow> f m' \<noteq> f h"
    unfolding ms_def by auto
  have best: "\<forall>j m'. j < length T \<and> g (T ! j) = Some m'
                 \<longrightarrow> score m' \<le> score h \<and> (score m' = score h \<longrightarrow> i \<le> j)"
  proof (intro allI impI)
    fix j m' assume jm: "j < length T \<and> g (T ! j) = Some m'"
    then have "m' \<in> set ms" unfolding ms_def using map_filter_nth by metis
    with facts(2) have le: "score m' \<le> score h" by (auto simp: f_def)
    have "score m' = score h \<longrightarrow> i \<le> j"
    proof
      assume "score m' = score h"
      then have "f m' = f h" by (simp add: f_def)
      with i(3) jm show "i \<le> j" by (meson not_le)
    qed
    with le show "score m' \<le> score h \<and> (score m' = score h \<longrightarrow> i \<le> j)" by simp
  qed
  have "specPath h = T ! i" using i(2) tryMatch_specPath unfolding g_def by blast
  with r i best tryMatch_score[of "cleanPath p" "T ! i" h] show ?thesis
    unfolding g_def by (intro exI[of _ i] exI[of _ h]) simp
qed

text \<open>
  Claim C5. When \<open>tryMatch\<close> accepts a template of the candidate list, \<open>matchPath\<close>
  returns a result, and the result is the template at some index \<open>i\<close> that \<open>tryMatch\<close>
  accepts, with the parameters of that match; its score is 10 for each literal segment
  plus 1 for each parameter segment; every accepted candidate scores at most as much,
  and an accepted candidate with the same score stands at an index \<open>j \<ge> i\<close>: the highest
  score wins and a tie goes to the earlier candidate. When \<open>tryMatch\<close> accepts no
  template, \<open>matchPath\<close> returns \<open>None\<close>.
\<close>

theorem matchPath_best_first:
  "(if \<exists>j < length T. tryMatch (cleanPath p) (T ! j) \<noteq> None
    then \<exists>r i m. matchPath p T = Some r
           \<and> i < length T \<and> tryMatch (cleanPath p) (T ! i) = Some m
           \<and> matched r = T ! i \<and> match_params r = params m
           \<and> score m = 10 * int (length (filter (\<lambda>s. paramMatch s = None) (segments (T ! i))))
                       + int (length (filter (\<lambda>s. paramMatch s \<noteq> None) (segments (T ! i))))
           \<and> (\<forall>j m'. j < length T \<and> tryMatch (cleanPath p) (T ! j) = Some m'
                 \<longrightarrow> score m' \<le> score m \<and> (score m' = score m \<longrightarrow> i \<le> j))
    else matchPath p T = None)"
proof (cases "\<exists>j < length T. tryMatch (cleanPath p) (T ! j) \<noteq> None")
  case True
  then have "\<not> (\<forall>t \<in> set T. tryMatch (cleanPath p) t = None)"
    by (meson nth_mem)
  then have "matchPath p T \<noteq> None" by (simp add: matchPath_None)
  then obtain r where r: "matchPath p T = Some r" by blast
  from matchPath_best[OF r] r True show ?thesis by (simp only: if_True) blast
next
  case False
  then have "\<forall>t \<in> set T. tryMatch (cleanPath p) t = None"
    by (metis in_set_conv_nth)
  then have "matchPath p T = None" by (simp add: matchPath_None)
  with False show ?thesis by (simp only: if_False)
qed

text \<open>
  The example of the claim: \<^verbatim>\<open>/users/me\<close> beats \<^verbatim>\<open>/users/{id}\<close>, which stands before it in
  the list and is accepted too.
\<close>

theorem matchPath_best_first_witness:
  "(\<exists>j < length [''/users/{id}'', ''/users/me''].
       tryMatch (cleanPath ''/users/me'') ([''/users/{id}'', ''/users/me''] ! j) \<noteq> None)
   \<and> matchPath ''/users/me'' [''/users/{id}'', ''/users/me'']
       = Some \<lparr>matched = ''/users/me'', match_params = []\<rparr>
   \<and> (\<exists>r i m. matchPath ''/users/me'' [''/users/{id}'', ''/users/me''] = Some r
         \<and> i < length [''/users/{id}'', ''/users/me'']
         \<and> tryMatch (cleanPath ''/users/me'') ([''/users/{id}'', ''/users/me''] ! i) = Some m
         \<and> matched r = [''/users/{id}'', ''/users/me''] ! i
         \<and> (\<forall>j m'. j < length [''/users/{id}'', ''/users/me'']
                 \<and> tryMatch (cleanPath ''/users/me'') ([''/users/{id}'', ''/users/me''] ! j) = Some m'
               \<longrightarrow> score m' \<le> score m \<and> (score m' = score m \<longrightarrow> i \<le> j)))"
proof -
  have a: "tryMatch (cleanPath ''/users/me'') ([''/users/{id}'', ''/users/me''] ! 0) \<noteq> None"
    by code_simp
  then have h: "\<exists>j < length [''/users/{id}'', ''/users/me''].
       tryMatch (cleanPath ''/users/me'') ([''/users/{id}'', ''/users/me''] ! j) \<noteq> None"
    by (intro exI[of _ 0]) simp
  have e: "matchPath ''/users/me'' [''/users/{id}'', ''/users/me'']
     = Some \<lparr>matched = ''/users/me'', match_params = []\<rparr>"
    by code_simp
  from matchPath_best_first[of "[''/users/{id}'', ''/users/me'']" "''/users/me''"] h
  have "\<exists>r i m. matchPath ''/users/me'' [''/users/{id}'', ''/users/me''] = Some r
         \<and> i < length [''/users/{id}'', ''/users/me'']
         \<and> tryMatch (cleanPath ''/users/me'') ([''/users/{id}'', ''/users/me''] ! i) = Some m
         \<and> matched r = [''/users/{id}'', ''/users/me''] ! i
         \<and> (\<forall>j m'. j < length [''/users/{id}'', ''/users/me'']
                 \<and> tryMatch (cleanPath ''/users/me'') ([''/users/{id}'', ''/users/me''] ! j) = Some m'
               \<longrightarrow> score m' \<le> score m \<and> (score m' = score m \<longrightarrow> i \<le> j))"
    by (simp only: if_True) blast
  with h e show ?thesis by (intro conjI)
qed

text \<open>
  Claim C6, as amended. \<open>tryMatch\<close> accepts a template exactly when the two lists of
  non-empty segments have the same length and every template segment is a brace, a
  non-empty name of word characters and a closing brace, or equals the observed segment.
  After a match, the value of a parameter name other than \<open>__proto__\<close> in \<open>params\<close> is
  the observed segment at the last position whose template segment carries that name
  (at the position itself when the name occurs once), and \<open>params\<close> has no entry for
  \<open>__proto__\<close>. When no candidate is accepted, and only then, \<open>matchPath\<close> returns \<open>None\<close>:
  a value, not an error.
\<close>

theorem tryMatch_accepts_iff:
  "((tryMatch rp sp \<noteq> None) =
      (length (segments rp) = length (segments sp)
       \<and> (\<forall>i < length (segments sp).
             (\<exists>n. n \<noteq> [] \<and> list_all is_word_char n \<and> segments sp ! i = CHR ''{'' # n @ ''}'')
             \<or> segments sp ! i = segments rp ! i)))
   \<and> (\<forall>m. tryMatch rp sp = Some m \<longrightarrow>
         map_of (params m) ''__proto__'' = None
         \<and> (\<forall>i n. i < length (segments sp)
                \<and> segments sp ! i = CHR ''{'' # n @ ''}'' \<and> n \<noteq> [] \<and> list_all is_word_char n
                \<and> n \<noteq> ''__proto__''
              \<longrightarrow> (\<exists>j. i \<le> j \<and> j < length (segments sp) \<and> segments sp ! j = segments sp ! i
                     \<and> (\<forall>k. j < k \<and> k < length (segments sp)
                            \<longrightarrow> segments sp ! k \<noteq> segments sp ! i)
                     \<and> map_of (params m) n = Some (segments rp ! j))))
   \<and> ((matchPath p T = None) = (\<forall>t \<in> set T. tryMatch (cleanPath p) t = None))"
proof (intro conjI allI impI)
  have pm: "\<And>s. (paramMatch s \<noteq> None) =
          (\<exists>n. n \<noteq> [] \<and> list_all is_word_char n \<and> s = CHR ''{'' # n @ ''}'')"
    using paramMatch_iff by auto
  show "(tryMatch rp sp \<noteq> None) =
      (length (segments rp) = length (segments sp)
       \<and> (\<forall>i < length (segments sp).
             (\<exists>n. n \<noteq> [] \<and> list_all is_word_char n \<and> segments sp ! i = CHR ''{'' # n @ ''}'')
             \<or> segments sp ! i = segments rp ! i))"
    by (simp only: tryMatch_accepts pm)
next
  fix m assume "tryMatch rp sp = Some m"
  then show "map_of (params m) ''__proto__'' = None" by (rule tryMatch_no_proto)
next
  fix m i n
  assume tm: "tryMatch rp sp = Some m"
    and a: "i < length (segments sp)
          \<and> segments sp ! i = CHR ''{'' # n @ ''}'' \<and> n \<noteq> [] \<and> list_all is_word_char n
          \<and> n \<noteq> ''__proto__''"
  then have pm: "paramMatch (segments sp ! i) = Some n" by (simp add: paramMatch_iff)
  from a have i: "i < length (segments sp)" and n: "n \<noteq> ''__proto__''" by simp_all
  show "\<exists>j. i \<le> j \<and> j < length (segments sp) \<and> segments sp ! j = segments sp ! i
          \<and> (\<forall>k. j < k \<and> k < length (segments sp) \<longrightarrow> segments sp ! k \<noteq> segments sp ! i)
          \<and> map_of (params m) n = Some (segments rp ! j)"
    using tm i pm n by (rule tryMatch_last_binding)
next
  show "(matchPath p T = None) = (\<forall>t \<in> set T. tryMatch (cleanPath p) t = None)"
    by (rule matchPath_None)
qed

text \<open>
  A parameter is bound, a template of another length is rejected, and no candidate for
  an unknown path gives \<open>None\<close>.
\<close>

theorem tryMatch_accepts_iff_witness:
  "tryMatch ''/pets/7'' ''/pets/{petId}''
     = Some \<lparr>specPath = ''/pets/{petId}'', params = [(''petId'', ''7'')], score = 11\<rparr>
   \<and> length (segments ''/pets/7'') = length (segments ''/pets/{petId}'')
   \<and> (1::nat) < length (segments ''/pets/{petId}'')
   \<and> segments ''/pets/{petId}'' ! 1 = CHR ''{'' # ''petId'' @ ''}''
   \<and> list_all is_word_char ''petId''
   \<and> (\<exists>j. 1 \<le> j \<and> j < length (segments ''/pets/{petId}'')
          \<and> map_of [(''petId'', ''7'')] ''petId'' = Some (segments ''/pets/7'' ! j))
   \<and> tryMatch ''/pets/7/x'' ''/pets/{petId}'' = None
   \<and> length (segments ''/pets/7/x'') \<noteq> length (segments ''/pets/{petId}'')
   \<and> matchPath ''/unknown'' [''/pets'', ''/pets/{petId}/owner''] = None"
proof -
  let ?m = "\<lparr>specPath = ''/pets/{petId}'', params = [(''petId'', ''7'')], score = 11\<rparr>"
  have e: "tryMatch ''/pets/7'' ''/pets/{petId}'' = Some ?m"
    by code_simp
  have s: "(1::nat) < length (segments ''/pets/{petId}'')"
    "segments ''/pets/{petId}'' ! 1 = CHR ''{'' # ''petId'' @ ''}''"
    "list_all is_word_char ''petId''"
    by code_simp+
  have l: "length (segments ''/pets/7/x'') \<noteq> length (segments ''/pets/{petId}'')"
    by code_simp
  have n: "\<forall>t \<in> set [''/pets'', ''/pets/{petId}/owner'']. tryMatch (cleanPath ''/unknown'') t = None"
    by code_simp
  note t = tryMatch_accepts_iff[of "''/pets/7''" "''/pets/{petId}''"]
  from t e
  have "length (segments ''/pets/7'') = length (segments ''/pets/{petId}'')" by simp
  moreover have b: "\<exists>j. 1 \<le> j \<and> j < length (segments ''/pets/{petId}'')
          \<and> map_of [(''petId'', ''7'')] ''petId'' = Some (segments ''/pets/7'' ! j)"
  proof -
    note after = mp[OF spec[OF conjunct1[OF conjunct2[OF t]]] e]
    note bound = conjunct2[OF after, rule_format, where i = 1 and n = "''petId''"]
    have "(1::nat) < length (segments ''/pets/{petId}'')
          \<and> segments ''/pets/{petId}'' ! 1 = CHR ''{'' # ''petId'' @ ''}'' \<and> ''petId'' \<noteq> []
          \<and> list_all is_word_char ''petId'' \<and> ''petId'' \<noteq> ''__proto__''"
      using s by simp
    from bound[OF this] obtain j where
      "1 \<le> j" "j < length (segments ''/pets/{petId}'')"
      "map_of (params ?m) ''petId'' = Some (segments ''/pets/7'' ! j)" by blast
    then show ?thesis by (intro exI[of _ j]) simp
  qed
  moreover from tryMatch_accepts_iff[of "''/pets/7/x''" "''/pets/{petId}''"] l
  have "tryMatch ''/pets/7/x'' ''/pets/{petId}'' = None" by blast
  moreover from tryMatch_accepts_iff[of _ _ "''/unknown''" "[''/pets'', ''/pets/{petId}/owner'']"] n
  have "matchPath ''/unknown'' [''/pets'', ''/pets/{petId}/owner''] = None" by blast
  ultimately show ?thesis using e l s by (intro conjI)
qed

text \<open>
  Claim C6 as stated fails in its binding: with a parameter name that occurs twice the
  observed segment at the first position is not the value of the name, and for the name
  \<open>__proto__\<close> the template is accepted and nothing is bound.
\<close>

theorem tryMatch_binding_overwritten:
  "tryMatch ''/1/2'' ''/{id}/{id}''
     = Some \<lparr>specPath = ''/{id}/{id}'', params = [(''id'', ''2'')], score = 2\<rparr>
   \<and> segments ''/1/2'' ! 0 = ''1''
   \<and> tryMatch ''/x'' ''/{__proto__}''
       = Some \<lparr>specPath = ''/{__proto__}'', params = [], score = 1\<rparr>"
  by code_simp

text \<open>
  Claim C10. A template segment \<open>{X}\<close> whose text \<open>X\<close> between the braces has a character
  that is not a word character is not a parameter: \<open>paramMatch\<close> rejects it, a match
  needs the observed segment to be equal to the braced text, and the keys of \<open>params\<close>
  are the names bound at the other positions only.
\<close>

theorem nonword_template_literal:
  assumes "\<not> list_all is_word_char X"
  shows "paramMatch (CHR ''{'' # X @ ''}'') = None
    \<and> (\<forall>rp sp m i. tryMatch rp sp = Some m \<and> i < length (segments sp)
           \<and> segments sp ! i = CHR ''{'' # X @ ''}''
         \<longrightarrow> segments rp ! i = CHR ''{'' # X @ ''}''
             \<and> fst ` set (params m)
                 = {n. n \<noteq> ''__proto__''
                      \<and> (\<exists>j < length (segments sp). j \<noteq> i \<and> paramMatch (segments sp ! j) = Some n)})"
proof (intro conjI allI impI)
  show lit: "paramMatch (CHR ''{'' # X @ ''}'') = None"
  proof (cases "paramMatch (CHR ''{'' # X @ ''}'')")
    case None
    then show ?thesis .
  next
    case (Some n)
    then have "n = X \<and> list_all is_word_char n" by (simp add: paramMatch_iff)
    with assms show ?thesis by blast
  qed
  fix rp sp m i
  assume a: "tryMatch rp sp = Some m \<and> i < length (segments sp)
           \<and> segments sp ! i = CHR ''{'' # X @ ''}''"
  then have "tryMatch rp sp \<noteq> None" by simp
  with a lit show "segments rp ! i = CHR ''{'' # X @ ''}''"
    by (metis tryMatch_accepts)
  from a have tm: "tryMatch rp sp = Some m" by simp
  have eq: "{n. n \<noteq> ''__proto__''
               \<and> (\<exists>j < length (segments sp). paramMatch (segments sp ! j) = Some n)}
      = {n. n \<noteq> ''__proto__''
           \<and> (\<exists>j < length (segments sp). j \<noteq> i \<and> paramMatch (segments sp ! j) = Some n)}"
    using a lit by auto
  show "fst ` set (params m)
      = {n. n \<noteq> ''__proto__''
           \<and> (\<exists>j < length (segments sp). j \<noteq> i \<and> paramMatch (segments sp ! j) = Some n)}"
    using tryMatch_keys[OF tm] eq by (rule trans)
qed

theorem nonword_template_literal_witness:
  "\<not> list_all is_word_char ''pet-id''
   \<and> paramMatch ''{pet-id}'' = None
   \<and> tryMatch ''/pets/{pet-id}'' ''/pets/{pet-id}''
       = Some \<lparr>specPath = ''/pets/{pet-id}'', params = [], score = 20\<rparr>
   \<and> tryMatch ''/pets/7'' ''/pets/{pet-id}'' = None"
proof -
  have h: "\<not> list_all is_word_char ''pet-id''" by code_simp
  have e: "tryMatch ''/pets/{pet-id}'' ''/pets/{pet-id}''
       = Some \<lparr>specPath = ''/pets/{pet-id}'', params = [], score = 20\<rparr>"
    "tryMatch ''/pets/7'' ''/pets/{pet-id}'' = None" by code_simp+
  from nonword_template_literal[OF h] h e show ?thesis by simp
qed

lemma records_registered_inv:
  "covered t \<subseteq> record_key ` set (allEndpoints t) \<Longrightarrow> records_registered t calls \<Longrightarrow>
     covered (tracker_run t calls) \<subseteq> record_key ` set (allEndpoints (tracker_run t calls))"
proof (induction calls arbitrary: t)
  case Nil
  then show ?case by (simp add: tracker_run_def)
next
  case (Cons c calls)
  show ?case
  proof (cases c)
    case (RegisterEndpoints entries)
    have "covered (registerEndpoints t entries) \<subseteq> record_key ` set (allEndpoints (registerEndpoints t entries))"
      using Cons.prems(1) by (auto simp: registerEndpoints_def)
    from Cons.IH[OF this] Cons.prems(2) RegisterEndpoints show ?thesis
      by (simp add: tracker_run_def)
  next
    case (RecordCoverage route meth status)
    with Cons.prems(2) have k: "makeKey route meth status \<in> record_key ` set (allEndpoints t)"
      and rest: "records_registered (recordCoverage t route meth status) calls" by simp_all
    have "covered (recordCoverage t route meth status)
        \<subseteq> record_key ` set (allEndpoints (recordCoverage t route meth status))"
      using Cons.prems(1) k by (auto simp: recordCoverage_def)
    from Cons.IH[OF this rest] RecordCoverage show ?thesis by (simp add: tracker_run_def)
  qed
qed

text \<open>
  Claim C2, as amended. \<open>recordCoverage\<close> adds its key without looking at the universe,
  so the claim needs a hypothesis: in a run from a new tracker in which every
  \<open>recordCoverage\<close> names a triple whose key is the key of a record registered before
  the call, every covered key is the key of a registered record, and the covered count
  of \<open>getStats\<close> is at most its total.
\<close>

theorem covered_within_registered:
  assumes "records_registered new_CoverageTracker calls"
  shows "covered (tracker_run new_CoverageTracker calls)
           \<subseteq> record_key ` set (allEndpoints (tracker_run new_CoverageTracker calls))
       \<and> stats_covered (getStats (tracker_run new_CoverageTracker calls))
           \<le> stats_total (getStats (tracker_run new_CoverageTracker calls))"
proof -
  let ?t = "tracker_run new_CoverageTracker calls"
  have "covered new_CoverageTracker \<subseteq> record_key ` set (allEndpoints new_CoverageTracker)"
    by (simp add: new_CoverageTracker_def)
  from records_registered_inv[OF this assms]
  have sub: "covered ?t \<subseteq> record_key ` set (allEndpoints ?t)" .
  then have "card (covered ?t) \<le> card (record_key ` set (allEndpoints ?t))"
    by (intro card_mono) simp_all
  also have "\<dots> \<le> card (set (allEndpoints ?t))" by (intro card_image_le) simp
  also have "\<dots> \<le> length (allEndpoints ?t)" by (rule card_length)
  finally show ?thesis using sub by (simp add: getStats_def)
qed

theorem covered_within_registered_witness:
  "records_registered new_CoverageTracker
     [RegisterEndpoints [\<lparr>ce_route = ''/pets'', ce_method = ''GET'', ce_statuses = [''200'', ''404'']\<rparr>],
      RecordCoverage ''/pets'' ''get'' ''200'']
   \<and> stats_covered (getStats (tracker_run new_CoverageTracker
     [RegisterEndpoints [\<lparr>ce_route = ''/pets'', ce_method = ''GET'', ce_statuses = [''200'', ''404'']\<rparr>],
      RecordCoverage ''/pets'' ''get'' ''200'']))
     \<le> stats_total (getStats (tracker_run new_CoverageTracker
     [RegisterEndpoints [\<lparr>ce_route = ''/pets'', ce_method = ''GET'', ce_statuses = [''200'', ''404'']\<rparr>],
      RecordCoverage ''/pets'' ''get'' ''200'']))"
proof -
  have h: "records_registered new_CoverageTracker
     [RegisterEndpoints [\<lparr>ce_route = ''/pets'', ce_method = ''GET'', ce_statuses = [''200'', ''404'']\<rparr>],
      RecordCoverage ''/pets'' ''get'' ''200'']"
    by code_simp
  from covered_within_registered[OF h] h show ?thesis by blast
qed

text \<open>
  Claim C2 as stated fails: after registering \<^verbatim>\<open>GET /pets\<close> with the status 200 alone and
  recording the statuses 404 and 500, two keys are covered, neither is the key of a
  registered record, and the covered count 2 exceeds the total 1.
\<close>

theorem covered_exceeds_universe:
  "\<not> (covered (tracker_run new_CoverageTracker
          [RegisterEndpoints [\<lparr>ce_route = ''/pets'', ce_method = ''GET'', ce_statuses = [''200'']\<rparr>],
           RecordCoverage ''/pets'' ''GET'' ''404'',
           RecordCoverage ''/pets'' ''GET'' ''500''])
        \<subseteq> record_key ` set (allEndpoints (tracker_run new_CoverageTracker
          [RegisterEndpoints [\<lparr>ce_route = ''/pets'', ce_method = ''GET'', ce_statuses = [''200'']\<rparr>],
           RecordCoverage ''/pets'' ''GET'' ''404'',
           RecordCoverage ''/pets'' ''GET'' ''500''])))
   \<and> \<not> (stats_covered (getStats (tracker_run new_CoverageTracker
          [RegisterEndpoints [\<lparr>ce_route = ''/pets'', ce_method = ''GET'', ce_statuses = [''200'']\<rparr>],
           RecordCoverage ''/pets'' ''GET'' ''404'',
           RecordCoverage ''/pets'' ''GET'' ''500'']))
        \<le> stats_total (getStats (tracker_run new_CoverageTracker
          [RegisterEndpoints [\<lparr>ce_route = ''/pets'', ce_method = ''GET'', ce_statuses = [''200'']\<rparr>],
           RecordCoverage ''/pets'' ''GET'' ''404'',
           RecordCoverage ''/pets'' ''GET'' ''500''])))"
  by code_simp

lemma parse_wrapper:
  "wrapper_shape v \<Longrightarrow> parseResponse b v = parseResponse b (js_get v ''response'')"
  by (subst parseResponse.simps) (simp add: wrapper_shape_def)

lemma unwrapped_step: "wrapper_shape v \<Longrightarrow> unwrapped v = unwrapped (js_get v ''response'')"
  by (subst unwrapped.simps) simp

lemma unwrapped_stop: "\<not> wrapper_shape v \<Longrightarrow> unwrapped v = v"
  by (subst unwrapped.simps) simp

lemma parse_unwrapped: "parseResponse b v = parseResponse b (unwrapped v)"
proof (induction v rule: unwrapped.induct)
  case (1 v)
  show ?case
  proof (cases "wrapper_shape v")
    case True
    with 1 show ?thesis by (simp add: unwrapped_step parse_wrapper)
  next
    case False
    then show ?thesis by (simp add: unwrapped_stop)
  qed
qed

lemma unwrapped_object: "truthy v \<and> is_object v \<Longrightarrow> truthy (unwrapped v) \<and> is_object (unwrapped v)"
proof (induction v rule: unwrapped.induct)
  case (1 v)
  show ?case
  proof (cases "wrapper_shape v")
    case True
    then have "truthy (js_get v ''response'') \<and> is_object (js_get v ''response'')"
      by (simp add: wrapper_shape_def)
    with 1 True show ?thesis by (simp add: unwrapped_step)
  next
    case False
    with 1 show ?thesis by (simp add: unwrapped_stop)
  qed
qed

lemma unwrapped_not_wrapper: "\<not> wrapper_shape (unwrapped v)"
proof (induction v rule: unwrapped.induct)
  case (1 v)
  then show ?case by (cases "wrapper_shape v") (simp_all add: unwrapped_step unwrapped_stop)
qed

text \<open>The conversions throw nothing but a \<^verbatim>\<open>TypeError\<close>, and return exactly on the values
  that \<open>converts\<close> describes.\<close>

lemma join_Inl: "join rs = Inl e \<Longrightarrow> Inl e \<in> set rs"
  by (induction rs rule: join.induct) (auto split: sum.splits)

lemma join_Inr: "(\<exists>s. join rs = Inr s) \<longleftrightarrow> (\<forall>r \<in> set rs. \<exists>s. r = Inr s)"
  by (induction rs rule: join.induct) (auto split: sum.splits)

lemma OrdinaryToPrimitive_error: "OrdinaryToPrimitive kvs ns = Inl e \<Longrightarrow> e = TypeError"
  by (auto simp: OrdinaryToPrimitive_def split: list.splits)

lemma OrdinaryToPrimitive_returns:
  "(\<exists>p. OrdinaryToPrimitive kvs [m1, m2] = Inr p)
     \<longleftrightarrow> method_result kvs m1 \<noteq> None \<or> method_result kvs m2 \<noteq> None"
  by (auto simp: OrdinaryToPrimitive_def map_filter_def split: list.splits)

lemma primitive_String: "is_primitive p \<Longrightarrow> \<exists>s. js_String b p = Inr s"
  by (cases p) simp_all

lemma primitive_Number: "is_primitive p \<Longrightarrow> \<exists>n. js_Number b p = Inr n"
  by (cases p) simp_all

lemma js_String_error: "js_String b v = Inl e \<Longrightarrow> e = TypeError"
proof (induction b v rule: js_String.induct)
  case (7 b xs)
  from "7.prems" have "join (map (\<lambda>x. if x = VUndefined \<or> x = VNull then Inr []
      else js_String b x) xs) = Inl e"
    by simp
  from join_Inl[OF this]
  obtain x where "x \<in> set xs" "\<not> (x = VUndefined \<or> x = VNull)" "js_String b x = Inl e"
    by (auto split: if_splits)
  with "7.IH" show ?case by blast
next
  case (8 b kvs)
  show ?case
  proof (cases "OrdinaryToPrimitive kvs [''toString'', ''valueOf'']")
    case (Inl e')
    with "8.prems" OrdinaryToPrimitive_error[OF Inl] show ?thesis by simp
  next
    case (Inr p)
    from OrdinaryToPrimitive_primitive[OF Inr] primitive_String[of p b] "8.prems" Inr
    show ?thesis by auto
  qed
qed simp_all

lemma js_String_returns: "(\<exists>s. js_String b v = Inr s) \<longleftrightarrow> converts v"
proof (induction b v rule: js_String.induct)
  case (7 b xs)
  have "(\<exists>s. js_String b (VArr xs) = Inr s)
      \<longleftrightarrow> (\<forall>x \<in> set xs. x = VUndefined \<or> x = VNull \<or> (\<exists>s. js_String b x = Inr s))"
    by (auto simp: join_Inr)
  also have "\<dots> \<longleftrightarrow> (\<forall>x \<in> set xs. converts x)"
    using "7.IH" by fastforce
  finally show ?case by (simp add: list_all_iff)
next
  case (8 b kvs)
  show ?case
  proof (cases "OrdinaryToPrimitive kvs [''toString'', ''valueOf'']")
    case (Inl e')
    with OrdinaryToPrimitive_returns[of kvs "''toString''" "''valueOf''"] show ?thesis by simp
  next
    case (Inr p)
    from OrdinaryToPrimitive_primitive[OF Inr] primitive_String[of p b]
      OrdinaryToPrimitive_returns[of kvs "''toString''" "''valueOf''"] Inr
    show ?thesis by auto
  qed
qed simp_all

lemma js_Number_error: "js_Number b v = Inl e \<Longrightarrow> e = TypeError"
proof (cases v)
  case (VArr xs)
  assume "js_Number b v = Inl e"
  with VArr have "js_String b (VArr xs) = Inl e" by (auto split: sum.splits)
  then show ?thesis by (rule js_String_error)
next
  case (VObj kvs)
  assume a: "js_Number b v = Inl e"
  show ?thesis
  proof (cases "OrdinaryToPrimitive kvs [''valueOf'', ''toString'']")
    case (Inl e')
    with a VObj OrdinaryToPrimitive_error[OF Inl] show ?thesis by simp
  next
    case (Inr p)
    from OrdinaryToPrimitive_primitive[OF Inr] primitive_Number[of p b] a VObj Inr
    show ?thesis by auto
  qed
qed auto

lemma js_Number_returns: "(\<exists>n. js_Number b v = Inr n) \<longleftrightarrow> converts v"
proof (cases v)
  case (VArr xs)
  have "(\<exists>n. js_Number b (VArr xs) = Inr n) \<longleftrightarrow> (\<exists>s. js_String b (VArr xs) = Inr s)"
    by (cases "js_String b (VArr xs)") simp_all
  with VArr js_String_returns[of b "VArr xs"] show ?thesis by simp
next
  case (VObj kvs)
  show ?thesis
  proof (cases "OrdinaryToPrimitive kvs [''valueOf'', ''toString'']")
    case (Inl e')
    with OrdinaryToPrimitive_returns[of kvs "''valueOf''" "''toString''"] VObj show ?thesis by auto
  next
    case (Inr p)
    from OrdinaryToPrimitive_primitive[OF Inr] primitive_Number[of p b]
      OrdinaryToPrimitive_returns[of kvs "''valueOf''" "''toString''"] Inr VObj
    show ?thesis by auto
  qed
qed auto

lemma normalize_loop_error: "normalize_loop b kvs acc = Inl e \<Longrightarrow> e = TypeError"
  by (induction b kvs acc rule: normalize_loop.induct)
     (auto split: sum.splits dest: js_String_error)

lemma normalize_loop_returns:
  "(\<exists>hs. normalize_loop b kvs acc = Inr hs) \<longleftrightarrow> list_all (\<lambda>kv. converts (snd kv)) kvs"
proof (induction b kvs acc rule: normalize_loop.induct)
  case (1 b result)
  then show ?case by simp
next
  case (2 b key v rest result)
  show ?case
  proof (cases "js_String b v")
    case (Inl e)
    with js_String_returns[of b v] show ?thesis by simp
  next
    case (Inr s)
    with js_String_returns[of b v] "2.IH"[OF Inr] show ?thesis by auto
  qed
qed

lemma extractPath_error: "extractPath b u = Inl e \<Longrightarrow> e = TypeError"
  by (cases u) (auto split: option.splits if_splits)

lemma js_get_checked_error: "js_get_checked src k = Inl e \<Longrightarrow> e = TypeError"
  by (cases src) auto

lemma build_parsed_error:
  "build_parsed b res src url status body = Inl e \<Longrightarrow> e = TypeError"
  unfolding build_parsed_def normalizeHeaders_def
  by (auto split: sum.splits
           dest: js_get_checked_error js_String_error extractPath_error js_Number_error
                 normalize_loop_error)

lemma build_parsed_no_Error:
  "build_parsed b res src url status body \<noteq> Inl (Error msg)"
  using build_parsed_error by fastforce

lemma build_parsed_converted:
  assumes "build_parsed b res src url status body = Inr p"
  shows "converts (or_else (js_get src ''method'') (VStr ''GET'')) \<and> converts status
     \<and> list_all (\<lambda>kv. converts (snd kv)) (entries (or_else (js_get res ''headers'') (VObj [])))"
proof -
  from assms obtain m where m: "js_get_checked src ''method'' = Inr m"
    by (auto simp: build_parsed_def split: sum.splits)
  then have mm: "m = js_get src ''method''" by (cases src) auto
  from assms m obtain s where "js_String b (or_else m (VStr ''GET'')) = Inr s"
    by (auto simp: build_parsed_def split: sum.splits)
  then have c1: "converts (or_else (js_get src ''method'') (VStr ''GET''))"
    using js_String_returns mm by blast
  from assms obtain n where "js_Number b status = Inr n"
    by (auto simp: build_parsed_def split: sum.splits)
  then have c2: "converts status" using js_Number_returns by blast
  from assms obtain hs where
    "normalize_loop b (entries (or_else (js_get res ''headers'') (VObj []))) [] = Inr hs"
    by (auto simp: build_parsed_def normalizeHeaders_def split: sum.splits)
  then have c3: "list_all (\<lambda>kv. converts (snd kv))
      (entries (or_else (js_get res ''headers'') (VObj [])))"
    using normalize_loop_returns by blast
  from c1 c2 c3 show ?thesis by simp
qed

lemma or_else_string:
  "string_or_falsy u \<Longrightarrow> \<exists>s. or_else u (VStr d) = VStr s"
  unfolding or_else_def by (cases u) auto

lemma extractPath_string: "\<exists>p. extractPath b (VStr s) = Inr p"
  by (cases "URL_pathname b s") simp_all

lemma build_parsed_returns:
  assumes "is_record src" and "\<exists>s. url src = VStr s"
    and "converts (or_else (js_get src ''method'') (VStr ''GET''))" and "converts status"
    and "list_all (\<lambda>kv. converts (snd kv)) (entries (or_else (js_get res ''headers'') (VObj [])))"
  shows "\<exists>p. build_parsed b res src url status body = Inr p"
proof -
  from assms(1) obtain kvs where src: "src = VObj kvs" by (cases src) auto
  then have g: "js_get_checked src ''method'' = Inr (js_get src ''method'')" by simp
  from assms(2) obtain s where u: "url src = VStr s" by blast
  obtain p where p: "extractPath b (VStr s) = Inr p"
    using extractPath_string by blast
  from assms(3) obtain ms where ms: "js_String b (or_else (js_get src ''method'') (VStr ''GET'')) = Inr ms"
    using js_String_returns by blast
  from assms(4) obtain n where n: "js_Number b status = Inr n"
    using js_Number_returns by blast
  from assms(5) obtain hs where
    hs: "normalizeHeaders b (or_else (js_get res ''headers'') (VObj [])) = Inr hs"
    unfolding normalizeHeaders_def using normalize_loop_returns by blast
  show ?thesis unfolding build_parsed_def by (simp add: g u p ms n hs del: extractPath.simps)
qed

text \<open>parseResponse on a value that is an object and not a wrapper.\<close>

lemma parse_direct:
  assumes "truthy v \<and> is_object v" and "\<not> wrapper_shape v"
  shows "parseResponse b v =
     (if js_in v ''request'' \<and> js_in v ''statusCode''
      then build_parsed b v (js_get v ''request'')
             (\<lambda>request. or_else (js_get request ''url'') (VStr ''/''))
             (js_get v ''statusCode'')
             (case js_get v ''body'' of VFun r \<Rightarrow> r | x \<Rightarrow> x)
      else if js_in v ''data'' \<and> js_in v ''config'' \<and> js_in v ''status''
      then build_parsed b v (js_get v ''config'')
             (\<lambda>config. or_else (js_get config ''url'') (VStr ''/''))
             (js_get v ''status'')
             (js_get v ''data'')
      else if js_in v ''body'' \<and> js_in v ''req'' \<and> js_in v ''statusCode''
      then build_parsed b v (js_get v ''req'')
             (\<lambda>req. or_else (js_get req ''path'') (VStr ''/''))
             (js_get v ''statusCode'')
             (js_get v ''body'')
      else if js_in v ''status'' \<or> js_in v ''statusCode''
      then build_parsed b v v
             (\<lambda>res. or_else (js_get res ''url'') (or_else (js_get res ''path'') (VStr ''/'')))
             (or_else (js_get v ''status'') (js_get v ''statusCode''))
             (nullish_else (js_get v ''body'')
                (nullish_else (js_get v ''data'') VNull))
      else Inl (Error ''Unknown response format: could not extract method, path, status, or body''))"
  using assms by (subst parseResponse.simps) (auto simp: wrapper_shape_def)

text \<open>
  On a direct shape, \<open>parseResponse\<close> is \<open>build_parsed\<close> on the source member and the
  status member of the shape.
\<close>

lemma parse_direct_build:
  assumes "truthy v \<and> is_object v" and "\<not> wrapper_shape v" and "direct_shape v"
  shows "\<exists>url body. parseResponse b v = build_parsed b v (source_member v) url (status_member v) body
           \<and> (typed_source v \<longrightarrow> is_record (source_member v)
                 \<and> (\<exists>s. url (source_member v) = VStr s))"
proof -
  have self: "is_record v" if "js_in v ''status'' \<or> js_in v ''statusCode''"
    using that by (cases v) (auto simp: array_index_def is_digit_def)
  have gen: "\<exists>s. or_else (js_get v ''url'') (or_else (js_get v ''path'') (VStr ''/'')) = VStr s"
    if "string_or_falsy (js_get v ''url'')"
      "truthy (js_get v ''url'') \<or> string_or_falsy (js_get v ''path'')"
    using that or_else_string[of "js_get v ''path''" "''/''"] or_else_string[of "js_get v ''url''"]
    by (cases "truthy (js_get v ''url'')") (auto simp: or_else_def)
  consider (japa) "js_in v ''request'' \<and> js_in v ''statusCode''"
    | (axios) "\<not> (js_in v ''request'' \<and> js_in v ''statusCode'')"
        "js_in v ''data'' \<and> js_in v ''config'' \<and> js_in v ''status''"
    | (supertest) "\<not> (js_in v ''request'' \<and> js_in v ''statusCode'')"
        "\<not> (js_in v ''data'' \<and> js_in v ''config'' \<and> js_in v ''status'')"
        "js_in v ''body'' \<and> js_in v ''req'' \<and> js_in v ''statusCode''"
    | (generic) "\<not> (js_in v ''request'' \<and> js_in v ''statusCode'')"
        "\<not> (js_in v ''data'' \<and> js_in v ''config'' \<and> js_in v ''status'')"
        "\<not> (js_in v ''body'' \<and> js_in v ''req'' \<and> js_in v ''statusCode'')"
        "js_in v ''status'' \<or> js_in v ''statusCode''"
    using assms(3) unfolding direct_shape_def by blast
  then show ?thesis
  proof cases
    case japa
    have "parseResponse b v = build_parsed b v (source_member v)
        (\<lambda>request. or_else (js_get request ''url'') (VStr ''/'')) (status_member v)
        (case js_get v ''body'' of VFun r \<Rightarrow> r | x \<Rightarrow> x)"
      unfolding parse_direct[OF assms(1,2)] source_member_def status_member_def using japa by (simp cong: conj_cong)
    moreover have "typed_source v \<longrightarrow> is_record (source_member v)
        \<and> (\<exists>s. or_else (js_get (source_member v) ''url'') (VStr ''/'') = VStr s)"
      unfolding source_member_def typed_source_def using japa or_else_string by (simp cong: conj_cong)
    ultimately show ?thesis by blast
  next
    case axios
    have "parseResponse b v = build_parsed b v (source_member v)
        (\<lambda>config. or_else (js_get config ''url'') (VStr ''/'')) (status_member v)
        (js_get v ''data'')"
      unfolding parse_direct[OF assms(1,2)] source_member_def status_member_def using axios by (simp cong: conj_cong)
    moreover have "typed_source v \<longrightarrow> is_record (source_member v)
        \<and> (\<exists>s. or_else (js_get (source_member v) ''url'') (VStr ''/'') = VStr s)"
      unfolding source_member_def typed_source_def using axios or_else_string by (simp cong: conj_cong)
    ultimately show ?thesis by blast
  next
    case supertest
    have "parseResponse b v = build_parsed b v (source_member v)
        (\<lambda>req. or_else (js_get req ''path'') (VStr ''/'')) (status_member v)
        (js_get v ''body'')"
      unfolding parse_direct[OF assms(1,2)] source_member_def status_member_def
      using supertest by (simp cong: conj_cong)
    moreover have "typed_source v \<longrightarrow> is_record (source_member v)
        \<and> (\<exists>s. or_else (js_get (source_member v) ''path'') (VStr ''/'') = VStr s)"
      unfolding source_member_def typed_source_def using supertest or_else_string by (simp cong: conj_cong)
    ultimately show ?thesis by blast
  next
    case generic
    have "parseResponse b v = build_parsed b v (source_member v)
        (\<lambda>res. or_else (js_get res ''url'') (or_else (js_get res ''path'') (VStr ''/'')))
        (status_member v)
        (nullish_else (js_get v ''body'') (nullish_else (js_get v ''data'') VNull))"
      unfolding parse_direct[OF assms(1,2)] source_member_def status_member_def
      using generic by (simp cong: conj_cong)
    moreover have "typed_source v \<longrightarrow> is_record (source_member v)
        \<and> (\<exists>s. or_else (js_get (source_member v) ''url'')
                 (or_else (js_get (source_member v) ''path'') (VStr ''/'')) = VStr s)"
      unfolding source_member_def typed_source_def using generic self gen by (simp cong: conj_cong)
    ultimately show ?thesis by blast
  qed
qed

lemma parse_direct_Error:
  assumes "truthy v \<and> is_object v" and "\<not> wrapper_shape v"
  shows "(\<exists>msg. parseResponse b v = Inl (Error msg)) \<longleftrightarrow> \<not> direct_shape v"
proof (cases "direct_shape v")
  case True
  from parse_direct_build[OF assms True, of b] build_parsed_no_Error
  have "parseResponse b v \<noteq> Inl (Error msg)" for msg by metis
  with True show ?thesis by simp
next
  case False
  then show ?thesis unfolding parse_direct[OF assms] direct_shape_def by auto
qed

lemma parse_direct_returns:
  assumes "truthy v \<and> is_object v" and "\<not> wrapper_shape v" and "direct_shape v"
    and "typed_source v" and "members_convert v"
  shows "\<exists>p. parseResponse b v = Inr p"
proof -
  from parse_direct_build[OF assms(1-3), of b] assms(4) obtain url body where
    eq: "parseResponse b v = build_parsed b v (source_member v) url (status_member v) body"
    and src: "is_record (source_member v)" and u: "\<exists>s. url (source_member v) = VStr s"
    by blast
  from assms(5) have c: "converts (or_else (js_get (source_member v) ''method'') (VStr ''GET''))"
    "converts (status_member v)"
    "list_all (\<lambda>kv. converts (snd kv)) (entries (or_else (js_get v ''headers'') (VObj [])))"
    by (simp_all add: members_convert_def)
  from build_parsed_returns[where url = url and src = "source_member v", OF src u c] eq
  show ?thesis by simp
qed

lemma parse_direct_TypeError:
  assumes "truthy v \<and> is_object v" and "\<not> wrapper_shape v" and "direct_shape v"
    and "\<not> members_convert v"
  shows "parseResponse b v = Inl TypeError"
proof (cases "parseResponse b v")
  case (Inl e)
  from parse_direct_build[OF assms(1-3), of b] Inl build_parsed_error
  have "e = TypeError" by metis
  with Inl show ?thesis by simp
next
  case (Inr p)
  from parse_direct_build[OF assms(1-3), of b] obtain url body where
    "parseResponse b v = build_parsed b v (source_member v) url (status_member v) body"
    by blast
  with Inr have "build_parsed b v (source_member v) url (status_member v) body = Inr p" by simp
  from build_parsed_converted[OF this] assms(4) show ?thesis
    by (simp add: members_convert_def)
qed

text \<open>
  Claim C8, as amended. \<open>parseResponse\<close> throws one of its two input errors exactly when
  its argument is not an object, or the value under its nested \<open>response\<close> wrappers has
  none of the four shapes that are read directly. For such a shape whose source member
  (\<open>request\<close>, \<open>config\<close>, \<open>req\<close>) is an object, whose \<open>url\<close> or \<open>path\<close> member is a string
  or falsy, and whose method, status and header values convert to a primitive, it
  returns a parsed response. For such a shape with a method, a status or a header value
  that does not convert, it throws a \<^verbatim>\<open>TypeError\<close>, which is not an input error.
\<close>

theorem parseResponse_input_error:
  "((\<exists>msg. parseResponse b v = Inl (Error msg))
      \<longleftrightarrow> \<not> (truthy v \<and> is_object v) \<or> \<not> direct_shape (unwrapped v))
   \<and> (truthy v \<and> is_object v \<and> direct_shape (unwrapped v) \<and> typed_source (unwrapped v)
        \<and> members_convert (unwrapped v)
        \<longrightarrow> (\<exists>p. parseResponse b v = Inr p))
   \<and> (truthy v \<and> is_object v \<and> direct_shape (unwrapped v) \<and> \<not> members_convert (unwrapped v)
        \<longrightarrow> parseResponse b v = Inl TypeError)"
proof (cases "truthy v \<and> is_object v")
  case False
  then have "parseResponse b v = Inl (Error ''Invalid response: expected an object'')"
    by (subst parseResponse.simps) auto
  with False show ?thesis by blast
next
  case True
  note u = unwrapped_object[OF True] unwrapped_not_wrapper[of v]
  have eq: "parseResponse b v = parseResponse b (unwrapped v)"
    by (rule parse_unwrapped)
  have "(\<exists>msg. parseResponse b v = Inl (Error msg)) \<longleftrightarrow> \<not> direct_shape (unwrapped v)"
    unfolding eq by (rule parse_direct_Error[OF u])
  moreover have "direct_shape (unwrapped v) \<and> typed_source (unwrapped v)
        \<and> members_convert (unwrapped v)
        \<longrightarrow> (\<exists>p. parseResponse b v = Inr p)"
    unfolding eq using parse_direct_returns[OF u] by blast
  moreover have "direct_shape (unwrapped v) \<and> \<not> members_convert (unwrapped v)
        \<longrightarrow> parseResponse b v = Inl TypeError"
    unfolding eq using parse_direct_TypeError[OF u] by blast
  ultimately show ?thesis using True by blast
qed

text \<open>
  A response in the shape of axios inside a wrapper is parsed; the same response with a
  method that has no callable \<open>toString\<close> throws a \<^verbatim>\<open>TypeError\<close>.
\<close>

theorem parseResponse_input_error_witness:
  "truthy (VObj [(''response'', VObj [(''config'', VObj [(''method'', VStr ''post''), (''url'', VStr ''/pets?x=1'')]),
        (''status'', VNum 201), (''data'', VNull)])])
   \<and> is_object (VObj [(''response'', VObj [(''config'', VObj [(''method'', VStr ''post''), (''url'', VStr ''/pets?x=1'')]),
        (''status'', VNum 201), (''data'', VNull)])])
   \<and> direct_shape (unwrapped (VObj [(''response'', VObj [(''config'', VObj [(''method'', VStr ''post''), (''url'', VStr ''/pets?x=1'')]),
        (''status'', VNum 201), (''data'', VNull)])]))
   \<and> typed_source (unwrapped (VObj [(''response'', VObj [(''config'', VObj [(''method'', VStr ''post''), (''url'', VStr ''/pets?x=1'')]),
        (''status'', VNum 201), (''data'', VNull)])]))
   \<and> members_convert (unwrapped (VObj [(''response'', VObj [(''config'', VObj [(''method'', VStr ''post''), (''url'', VStr ''/pets?x=1'')]),
        (''status'', VNum 201), (''data'', VNull)])]))
   \<and> (\<exists>p. parseResponse example_builtins
          (VObj [(''response'', VObj [(''config'', VObj [(''method'', VStr ''post''), (''url'', VStr ''/pets?x=1'')]),
            (''status'', VNum 201), (''data'', VNull)])]) = Inr p)
   \<and> truthy (VObj [(''status'', VNum 200), (''method'', VObj [(''toString'', VNum 1)])])
   \<and> is_object (VObj [(''status'', VNum 200), (''method'', VObj [(''toString'', VNum 1)])])
   \<and> direct_shape (unwrapped (VObj [(''status'', VNum 200), (''method'', VObj [(''toString'', VNum 1)])]))
   \<and> \<not> members_convert (unwrapped (VObj [(''status'', VNum 200), (''method'', VObj [(''toString'', VNum 1)])]))
   \<and> parseResponse example_builtins
        (VObj [(''status'', VNum 200), (''method'', VObj [(''toString'', VNum 1)])]) = Inl TypeError"
proof -
  let ?v = "VObj [(''response'', VObj [(''config'', VObj [(''method'', VStr ''post''), (''url'', VStr ''/pets?x=1'')]),
        (''status'', VNum 201), (''data'', VNull)])]"
  let ?w = "VObj [(''status'', VNum 200), (''method'', VObj [(''toString'', VNum 1)])]"
  have h: "truthy ?v \<and> is_object ?v \<and> direct_shape (unwrapped ?v) \<and> typed_source (unwrapped ?v)
      \<and> members_convert (unwrapped ?v)"
    by code_simp
  have k: "truthy ?w \<and> is_object ?w \<and> direct_shape (unwrapped ?w) \<and> \<not> members_convert (unwrapped ?w)"
    by code_simp
  from parseResponse_input_error[of example_builtins ?v] h
  have r: "\<exists>p. parseResponse example_builtins ?v = Inr p" by blast
  from parseResponse_input_error[of example_builtins ?w] k
  have t: "parseResponse example_builtins ?w = Inl TypeError" by blast
  from h k r t show ?thesis by (intro conjI) blast+
qed

text \<open>
  Claim C8 as stated fails: an object that carries a nested \<open>response\<close> object has the
  first of the five recognized shapes, and \<open>parseResponse\<close> throws the input error for it
  when the nested object is not recognized.
\<close>

theorem parseResponse_wrapper_unrecognized:
  "wrapper_shape (VObj [(''response'', VObj [(''version'', VNum 1)])])
   \<and> parseResponse example_builtins (VObj [(''response'', VObj [(''version'', VNum 1)])])
       = Inl (Error ''Unknown response format: could not extract method, path, status, or body'')"
  by code_simp

text \<open>
  A recognized shape whose \<open>request\<close> is \<^verbatim>\<open>null\<close> does not return either: reading
  \<^verbatim>\<open>request.method\<close> throws a \<^verbatim>\<open>TypeError\<close>.
\<close>

lemma parseResponse_null_request:
  "parseResponse example_builtins (VObj [(''request'', VNull), (''statusCode'', VNum 200)])
     = Inl TypeError"
  by code_simp

lemma is_digit_char_of: "k < 10 \<Longrightarrow> is_digit (char_of (48 + k :: nat))"
  by (simp add: is_digit_def Let_def)

lemma string_of_nat_digits: "string_of_nat n \<noteq> [] \<and> list_all is_digit (string_of_nat n)"
proof (induction n rule: string_of_nat.induct)
  case (1 n)
  show ?case
  proof (cases "n < 10")
    case True
    then show ?thesis by (subst (1 2) string_of_nat.simps) (simp add: is_digit_char_of)
  next
    case False
    with 1 show ?thesis
      by (subst (1 2) string_of_nat.simps) (simp add: is_digit_char_of)
  qed
qed

lemma string_of_int_nonempty: "string_of_int i \<noteq> []"
  using string_of_nat_digits by (simp add: string_of_int_def)

lemma string_of_int_digits: "0 \<le> i \<Longrightarrow> list_all is_digit (string_of_int i)"
  using string_of_nat_digits by (simp add: string_of_int_def)

lemma string_of_int_last: "is_digit (last (string_of_int i))"
proof -
  have "is_digit (last (string_of_nat n))" for n
    using string_of_nat_digits[of n] by (metis last_in_set list_all_iff)
  then show ?thesis using string_of_nat_digits by (simp add: string_of_int_def)
qed

lemma status_validator_first_present:
  "code \<noteq> [] \<Longrightarrow>
   status_validator rs code = first_present rs [code, ''default'', [hd code] @ ''XX'']"
  by (cases code) (auto simp: status_validator_def split: option.splits)

lemma validateResponse_status:
  assumes "parseResponse b response = Inr parsed"
    and "matchPath (pr_path parsed) (map fst vs) = Some pathMatch"
    and "map_of vs (matched pathMatch) = Some methods"
    and "map_of methods (toLowerCase (pr_method parsed)) = Some pathValidators"
  shows "validateResponse b response vs =
     (case status_validator (responses pathValidators) (string_of_int (pr_status parsed)) of
        Some responseValidator \<Rightarrow> Inr (check_body responseValidator (pr_body parsed))
      | None \<Rightarrow>
          Inr \<lparr>valid = False,
               errors = Some [\<lparr>ve_path = [],
                 ve_message = ''No response schema defined for '' @ pr_method parsed @ '' ''
                    @ matched pathMatch @ '' with status '' @ string_of_int (pr_status parsed),
                 ve_keyword = None,
                 ve_expected = Some (VArr (map (VStr \<circ> fst) (responses pathValidators))),
                 ve_actual = Some (VStr (string_of_int (pr_status parsed)))\<rparr>]\<rparr>)"
  unfolding validateResponse_def Let_def using assms
  by (simp split: option.splits)

text \<open>
  Claim C3. For a response that parses, whose path matches a template of the table and
  whose lower-cased method has an entry under that template, \<open>validateResponse\<close> uses
  the first entry present among the decimal numeral of the status, the key \<open>default\<close>,
  and the first character of that numeral followed by \<open>XX\<close>, in that order, and checks
  the body against it; when none of the three is present the result is invalid, with the
  one error \<open>No response schema defined ...\<close> whose \<open>expected\<close> field is the list of the
  declared status codes. The numeral is never empty and, for a status that is not
  negative, consists of digits, so its first character is the leading digit.
\<close>

theorem validateResponse_status_priority:
  assumes "parseResponse b response = Inr parsed"
    and "matchPath (pr_path parsed) (map fst vs) = Some pathMatch"
    and "map_of vs (matched pathMatch) = Some methods"
    and "map_of methods (toLowerCase (pr_method parsed)) = Some pathValidators"
  shows "validateResponse b response vs =
     (case first_present (responses pathValidators)
             [string_of_int (pr_status parsed), ''default'',
              [hd (string_of_int (pr_status parsed))] @ ''XX''] of
        Some responseValidator \<Rightarrow> Inr (check_body responseValidator (pr_body parsed))
      | None \<Rightarrow>
          Inr \<lparr>valid = False,
               errors = Some [\<lparr>ve_path = [],
                 ve_message = ''No response schema defined for '' @ pr_method parsed @ '' ''
                    @ matched pathMatch @ '' with status '' @ string_of_int (pr_status parsed),
                 ve_keyword = None,
                 ve_expected = Some (VArr (map (VStr \<circ> fst) (responses pathValidators))),
                 ve_actual = Some (VStr (string_of_int (pr_status parsed)))\<rparr>]\<rparr>)
   \<and> string_of_int (pr_status parsed) \<noteq> []
   \<and> (0 \<le> pr_status parsed \<longrightarrow> list_all is_digit (string_of_int (pr_status parsed)))"
proof -
  note sv = status_validator_first_present[OF string_of_int_nonempty,
      of "responses pathValidators" "pr_status parsed"]
  note vr = validateResponse_status[OF assms]
  show ?thesis
    unfolding vr sv using string_of_int_nonempty string_of_int_digits by simp
qed

text \<open>Status 404 on \<^verbatim>\<open>GET /ping\<close>, which declares 200 and 4XX: the wildcard entry is used.\<close>

theorem validateResponse_status_priority_witness:
  "parseResponse example_builtins (japa_response ''GET'' ''/ping'' 404)
     = Inr \<lparr>pr_method = ''GET'', pr_path = ''/ping'', pr_status = 404, pr_headers = [],
            pr_body = VObj []\<rparr>
   \<and> matchPath ''/ping'' (map fst example_validators)
       = Some \<lparr>matched = ''/ping'', match_params = []\<rparr>
   \<and> map_of example_validators ''/ping''
       = Some [(''get'', \<lparr>responses = [(''200'', no_body), (''4XX'', no_body)]\<rparr>)]
   \<and> map_of [(''get'', \<lparr>responses = [(''200'', no_body), (''4XX'', no_body)]\<rparr>)] (toLowerCase ''GET'')
       = Some \<lparr>responses = [(''200'', no_body), (''4XX'', no_body)]\<rparr>
   \<and> first_present [(''200'', no_body), (''4XX'', no_body)] [''404'', ''default'', ''4XX'']
       = Some no_body
   \<and> validateResponse example_builtins (japa_response ''GET'' ''/ping'' 404) example_validators
       = Inr \<lparr>valid = True, errors = None\<rparr>"
proof -
  let ?parsed = "\<lparr>pr_method = ''GET'', pr_path = ''/ping'', pr_status = 404, pr_headers = [],
            pr_body = VObj []\<rparr>"
  let ?pm = "\<lparr>matched = ''/ping'', match_params = []\<rparr>"
  have h1: "parseResponse example_builtins (japa_response ''GET'' ''/ping'' 404) = Inr ?parsed"
    by code_simp
  have m: "matchPath ''/ping'' (map fst example_validators) = Some ?pm"
    by code_simp
  then have h2: "matchPath (pr_path ?parsed) (map fst example_validators) = Some ?pm"
    by simp
  have t: "map_of example_validators ''/ping''
       = Some [(''get'', \<lparr>responses = [(''200'', no_body), (''4XX'', no_body)]\<rparr>)]"
    by (simp add: example_validators_def)
  then have h3: "map_of example_validators (matched ?pm)
       = Some [(''get'', \<lparr>responses = [(''200'', no_body), (''4XX'', no_body)]\<rparr>)]"
    by simp
  have l: "toLowerCase ''GET'' = ''get''" by code_simp
  have o: "map_of [(''get'', \<lparr>responses = [(''200'', no_body), (''4XX'', no_body)]\<rparr>)]
        (toLowerCase ''GET'') = Some \<lparr>responses = [(''200'', no_body), (''4XX'', no_body)]\<rparr>"
    unfolding l by simp
  then have h4: "map_of [(''get'', \<lparr>responses = [(''200'', no_body), (''4XX'', no_body)]\<rparr>)]
        (toLowerCase (pr_method ?parsed))
       = Some \<lparr>responses = [(''200'', no_body), (''4XX'', no_body)]\<rparr>"
    by simp
  have s: "string_of_int 404 = ''404''" by code_simp
  have f: "first_present [(''200'', no_body), (''4XX'', no_body)] [''404'', ''default'', ''4XX'']
       = Some no_body" by simp
  have c: "check_body no_body (VObj []) = \<lparr>valid = True, errors = None\<rparr>"
    by (simp add: check_body_def no_body_def)
  from validateResponse_status_priority[OF h1 h2 h3 h4]
  have "validateResponse example_builtins (japa_response ''GET'' ''/ping'' 404) example_validators
       = Inr \<lparr>valid = True, errors = None\<rparr>"
    by (simp only: s f c ParsedResponse.simps OperationValidators.simps option.case
          list.sel append.simps)
  with h1 m t o f show ?thesis by (intro conjI)
qed

lemma record_response_covered:
  "covered (coverageTracker (record_response b st vs response)) = covered (coverageTracker st)
   \<or> (\<exists>parsed pathMatch. parseResponse b response = Inr parsed
         \<and> matchPath (pr_path parsed) (map fst vs) = Some pathMatch
         \<and> covered (coverageTracker (record_response b st vs response))
             = insert (makeKey (matched pathMatch) (pr_method parsed) (string_of_int (pr_status parsed)))
                 (covered (coverageTracker st)))"
  by (auto simp: record_response_def recordCoverage_def split: sum.splits option.splits)

lemma record_response_endpoints:
  "allEndpoints (coverageTracker (record_response b st vs response)) = allEndpoints (coverageTracker st)"
  by (auto simp: record_response_def recordCoverage_def split: sum.splits option.splits)

lemma isValidResponse_covered:
  "covered (coverageTracker (snd (isValidResponse b st response))) = covered (coverageTracker st)
   \<or> (\<exists>vs parsed pathMatch. validators st = Some vs \<and> parseResponse b response = Inr parsed
         \<and> matchPath (pr_path parsed) (map fst vs) = Some pathMatch
         \<and> covered (coverageTracker (snd (isValidResponse b st response)))
             = insert (makeKey (matched pathMatch) (pr_method parsed) (string_of_int (pr_status parsed)))
                 (covered (coverageTracker st)))"
proof (cases "hasRegistered st")
  case False
  then show ?thesis by (simp add: isValidResponse_def)
next
  case True
  show ?thesis
  proof (cases "validators st")
    case None
    with True show ?thesis by (simp add: isValidResponse_def)
  next
    case (Some vs)
    show ?thesis
    proof (cases "validateResponse b response vs")
      case (Inl e)
      with True Some show ?thesis by (simp add: isValidResponse_def)
    next
      case (Inr result)
      have snd_eq: "snd (isValidResponse b st response)
          = (if coverage_enabled (coverageOptions st) then record_response b st vs response else st)"
        using True Some Inr by (simp add: isValidResponse_def Let_def)
      show ?thesis
      proof (cases "coverage_enabled (coverageOptions st)")
        case False
        with snd_eq show ?thesis by simp
      next
        case en: True
        with snd_eq have "snd (isValidResponse b st response) = record_response b st vs response"
          by simp
        with record_response_covered[of b st vs response] Some show ?thesis
          by auto
      qed
    qed
  qed
qed

lemma step_status_keys:
  "status_keys (coverageTracker st) \<Longrightarrow> status_keys (coverageTracker (assertion_step b st c))"
proof (cases c)
  case (RegisterSpecs built options)
  assume "status_keys (coverageTracker st)"
  then show ?thesis using RegisterSpecs
    by (auto simp: registerSpecs_def status_keys_def registerEndpoints_def enableReporting_def Let_def
             split: sum.splits)
next
  case Reset
  assume "status_keys (coverageTracker st)"
  then show ?thesis using Reset by (simp add: reset_def status_keys_def)
next
  case (IsValidResponse response)
  assume inv: "status_keys (coverageTracker st)"
  from isValidResponse_covered[of b st response]
  show ?thesis
  proof
    assume "covered (coverageTracker (snd (isValidResponse b st response))) = covered (coverageTracker st)"
    with inv IsValidResponse show ?thesis by (simp add: status_keys_def)
  next
    assume "\<exists>vs parsed pathMatch. validators st = Some vs \<and> parseResponse b response = Inr parsed
         \<and> matchPath (pr_path parsed) (map fst vs) = Some pathMatch
         \<and> covered (coverageTracker (snd (isValidResponse b st response)))
             = insert (makeKey (matched pathMatch) (pr_method parsed) (string_of_int (pr_status parsed)))
                 (covered (coverageTracker st))"
    then obtain parsed :: ParsedResponse and pathMatch :: PathMatchResult where
      c: "covered (coverageTracker (snd (isValidResponse b st response)))
             = insert (makeKey (matched pathMatch) (pr_method parsed) (string_of_int (pr_status parsed)))
                 (covered (coverageTracker st))"
      by blast
    have "status_keys (coverageTracker (snd (isValidResponse b st response)))"
      using inv unfolding status_keys_def c by blast
    then show ?thesis using IsValidResponse by simp
  qed
qed

lemma run_status_keys:
  "status_keys (coverageTracker st) \<Longrightarrow> status_keys (coverageTracker (assertion_run b st calls))"
  unfolding assertion_run_def
  by (induction calls arbitrary: st) (simp_all add: step_status_keys)

lemma string_of_int_no_colon: "CHR '':'' \<notin> set (string_of_int i)"
proof -
  have "CHR '':'' \<notin> set (string_of_nat n)" for n
  proof
    assume "CHR '':'' \<in> set (string_of_nat n)"
    with string_of_nat_digits[of n] have "is_digit CHR '':''" by (auto simp: list_all_iff)
    then show False by (simp add: is_digit_def)
  qed
  then show ?thesis by (simp add: string_of_int_def)
qed

lemma suffix_after_last:
  assumes "a @ c # x = b @ c # y" and "c \<notin> set x" and "c \<notin> set y"
  shows "x = y"
proof -
  from assms(1) have "rev x @ c # rev a = rev y @ c # rev b"
    by (metis rev.simps(2) rev_append append_assoc append_Cons append_Nil)
  then have "takeWhile (\<lambda>z. z \<noteq> c) (rev x @ c # rev a) = takeWhile (\<lambda>z. z \<noteq> c) (rev y @ c # rev b)"
    by simp
  moreover have "takeWhile (\<lambda>z. z \<noteq> c) (rev x @ c # rev a) = rev x"
    using assms(2) by (auto simp: takeWhile_tail)
  moreover have "takeWhile (\<lambda>z. z \<noteq> c) (rev y @ c # rev b) = rev y"
    using assms(3) by (auto simp: takeWhile_tail)
  ultimately show ?thesis by simp
qed

lemma makeKey_status_inj:
  assumes "makeKey route meth s = makeKey route' meth' s'"
    and "CHR '':'' \<notin> set s" and "CHR '':'' \<notin> set s'"
  shows "s = s'"
proof -
  from assms(1) have "(toUpperCase meth @ '':'' @ route) @ CHR '':'' # s
      = (toUpperCase meth' @ '':'' @ route') @ CHR '':'' # s'"
    by (simp add: makeKey_def)
  from suffix_after_last[OF this assms(2,3)] show ?thesis .
qed

lemma non_numeral_key_not_covered:
  assumes "status_keys t" and "CHR '':'' \<notin> set (cr_status e)"
    and "\<forall>n. cr_status e \<noteq> string_of_int n"
  shows "record_key e \<notin> covered t"
proof
  assume "record_key e \<in> covered t"
  with assms(1) obtain route meth n where
    "record_key e = makeKey route meth (string_of_int n)"
    unfolding status_keys_def by blast
  then have "makeKey (cr_route e) (cr_method e) (cr_status e) = makeKey route meth (string_of_int n)"
    by (simp add: record_key_def)
  from makeKey_status_inj[OF this assms(2) string_of_int_no_colon] assms(3) show False by blast
qed

lemma default_not_numeral: "\<forall>n. ''default'' \<noteq> string_of_int n"
proof
  fix n
  show "''default'' \<noteq> string_of_int n"
  proof
    assume "''default'' = string_of_int n"
    with string_of_int_last[of n] have "is_digit (last ''default'')" by simp
    then show False by (simp add: is_digit_def)
  qed
qed

text \<open>
  Claim C9. After any run of \<open>registerSpecs\<close>, \<open>reset\<close> and \<open>isValidResponse\<close> calls from
  the initial state, every covered key is an upper-cased method, a route and the decimal
  numeral of a status number, joined by colons. So a registered record whose declared
  status is not such a numeral (\<open>default\<close>, \<open>4XX\<close>) is still in \<open>getUncovered\<close>; the
  declared status is taken without a colon, the separator of the key.
\<close>

theorem nonnumeric_status_uncovered:
  assumes "e \<in> set (allEndpoints (coverageTracker (assertion_run b initial_state calls)))"
    and "CHR '':'' \<notin> set (cr_status e)" and "\<forall>n. cr_status e \<noteq> string_of_int n"
  shows "e \<in> set (getUncovered (coverageTracker (assertion_run b initial_state calls)))
    \<and> (\<forall>k \<in> covered (coverageTracker (assertion_run b initial_state calls)).
          \<exists>route meth n. k = toUpperCase meth @ '':'' @ route @ '':'' @ string_of_int n)"
proof -
  let ?t = "coverageTracker (assertion_run b initial_state calls)"
  have "status_keys (coverageTracker initial_state)"
    by (simp add: status_keys_def initial_state_def new_CoverageTracker_def)
  then have inv: "status_keys ?t" by (rule run_status_keys)
  have "record_key e \<notin> covered ?t"
    using inv assms(2,3) by (rule non_numeral_key_not_covered)
  with assms(1) have "e \<in> set (getUncovered ?t)" by (simp add: getUncovered_def)
  moreover have "\<forall>k \<in> covered ?t.
          \<exists>route meth n. k = toUpperCase meth @ '':'' @ route @ '':'' @ string_of_int n"
    using inv unfolding status_keys_def makeKey_def .
  ultimately show ?thesis by blast
qed

lemma isValidResponse_endpoints:
  "allEndpoints (coverageTracker (snd (isValidResponse b st response)))
     = allEndpoints (coverageTracker st)"
  by (auto simp: isValidResponse_def Let_def record_response_endpoints
           split: option.splits sum.splits)

lemma example_registered:
  "assertion_step example_builtins initial_state example_registration =
   \<lparr>validators = Some example_validators, hasRegistered = True,
    coverageOptions = \<lparr>reportCoverage = Some True, exportCoverage = None\<rparr>,
    coverageTracker = \<lparr>allEndpoints =
      [\<lparr>cr_route = ''/pets'', cr_method = ''GET'', cr_status = ''200''\<rparr>,
       \<lparr>cr_route = ''/pets'', cr_method = ''GET'', cr_status = ''default''\<rparr>,
       \<lparr>cr_route = ''/ping'', cr_method = ''GET'', cr_status = ''200''\<rparr>,
       \<lparr>cr_route = ''/ping'', cr_method = ''GET'', cr_status = ''4XX''\<rparr>,
       \<lparr>cr_route = ''/any'', cr_method = ''GET'', cr_status = ''default''\<rparr>],
      covered = {}, reportOnExit = True, exportOnExit = False, exitHandlerRegistered = True\<rparr>\<rparr>"
  by (simp add: example_registration_def registerSpecs_def initial_state_def
        coverage_enabled_def enableReporting_def registerEndpoints_def new_CoverageTracker_def
        example_entries_def Let_def)

lemma example_run_split:
  "assertion_run b initial_state example_run
     = assertion_step b (assertion_step b (assertion_step b initial_state example_registration)
         (IsValidResponse (japa_response ''GET'' ''/any'' 200)))
         (IsValidResponse (japa_response ''GET'' ''/ping'' 404))"
  by (simp add: assertion_run_def example_run_def)

lemma example_any_200:
  "validateResponse example_builtins (japa_response ''GET'' ''/any'' 200) example_validators
     = Inr \<lparr>valid = True, errors = None\<rparr>"
proof -
  have p: "parseResponse example_builtins (japa_response ''GET'' ''/any'' 200)
     = Inr \<lparr>pr_method = ''GET'', pr_path = ''/any'', pr_status = 200, pr_headers = [],
            pr_body = VObj []\<rparr>"
    by code_simp
  have m: "matchPath (pr_path \<lparr>pr_method = ''GET'', pr_path = ''/any'', pr_status = 200, pr_headers = [],
            pr_body = VObj []\<rparr>) (map fst example_validators)
       = Some \<lparr>matched = ''/any'', match_params = []\<rparr>"
    by code_simp
  have t: "map_of example_validators (matched \<lparr>matched = ''/any'', match_params = []\<rparr>)
       = Some [(''get'', \<lparr>responses = [(''default'', no_body)]\<rparr>)]"
    by (simp add: example_validators_def)
  have l: "toLowerCase ''GET'' = ''get''" by code_simp
  have o: "map_of [(''get'', \<lparr>responses = [(''default'', no_body)]\<rparr>)]
        (toLowerCase (pr_method \<lparr>pr_method = ''GET'', pr_path = ''/any'', pr_status = 200, pr_headers = [],
            pr_body = VObj []\<rparr>))
       = Some \<lparr>responses = [(''default'', no_body)]\<rparr>"
    using l by simp
  have s: "string_of_int 200 = ''200''" by code_simp
  have sv: "status_validator [(''default'', no_body)] ''200'' = Some no_body"
    by (simp add: status_validator_def)
  have cb: "check_body no_body (VObj []) = \<lparr>valid = True, errors = None\<rparr>"
    by (simp add: check_body_def no_body_def)
  show ?thesis
    unfolding validateResponse_status[OF p m t o]
    by (simp only: s sv cb ParsedResponse.simps OperationValidators.simps option.case)
qed

text \<open>
  The response \<^verbatim>\<open>GET /any\<close> with status 200 validates through the \<open>default\<close> entry, and
  the record \<^verbatim>\<open>(/any, GET, default)\<close> stays uncovered.
\<close>

theorem nonnumeric_status_uncovered_witness:
  "\<lparr>cr_route = ''/any'', cr_method = ''GET'', cr_status = ''default''\<rparr>
      \<in> set (allEndpoints (coverageTracker (assertion_run example_builtins initial_state example_run)))
   \<and> CHR '':'' \<notin> set (cr_status \<lparr>cr_route = ''/any'', cr_method = ''GET'', cr_status = ''default''\<rparr>)
   \<and> fst (isValidResponse example_builtins
             (assertion_step example_builtins initial_state example_registration)
             (japa_response ''GET'' ''/any'' 200)) = Inr ()
   \<and> \<lparr>cr_route = ''/any'', cr_method = ''GET'', cr_status = ''default''\<rparr>
      \<in> set (getUncovered (coverageTracker (assertion_run example_builtins initial_state example_run)))"
proof -
  have h1: "\<lparr>cr_route = ''/any'', cr_method = ''GET'', cr_status = ''default''\<rparr>
      \<in> set (allEndpoints (coverageTracker (assertion_run example_builtins initial_state example_run)))"
    unfolding example_run_split assertion_step.simps(3) isValidResponse_endpoints
    by (simp add: example_registered)
  have h2: "CHR '':'' \<notin> set (cr_status \<lparr>cr_route = ''/any'', cr_method = ''GET'', cr_status = ''default''\<rparr>)"
    by simp
  have h3: "\<forall>n. cr_status \<lparr>cr_route = ''/any'', cr_method = ''GET'', cr_status = ''default''\<rparr>
      \<noteq> string_of_int n"
    using default_not_numeral by simp
  have v: "fst (isValidResponse example_builtins
             (assertion_step example_builtins initial_state example_registration)
             (japa_response ''GET'' ''/any'' 200)) = Inr ()"
    unfolding example_registered
    by (simp add: isValidResponse_def example_any_200 Let_def)
  from nonnumeric_status_uncovered[OF h1 h2 h3]
  have u: "\<lparr>cr_route = ''/any'', cr_method = ''GET'', cr_status = ''default''\<rparr>
      \<in> set (getUncovered (coverageTracker (assertion_run example_builtins initial_state example_run)))"
    by (rule conjunct1)
  show ?thesis using h1 h2 v u by (intro conjI)
qed





























lemma without_ref_no_ref: "map_of (without_ref kvs) ''$ref'' = None"
  by (induction kvs) (auto simp: without_ref_def)




text \<open>The cases of \<open>resolveRefsInObject\<close> in which it returns.\<close>

lemma resolve_0: "resolveRefsInObject 0 obj root \<noteq> Returns r"
  by simp




lemma resolve_outside:
  assumes "local_target kvs root = OutsideDocument"
  shows "resolveRefsInObject n (JObj kvs) root \<noteq> Returns r"
  using assms by (cases n) auto



declare resolveRefsInObject.simps(2) [simp del]




















lemma proto_not_ref: "''$ref'' \<noteq> ''__proto__''"
  by simp

























text \<open>
  The siblings are copied as they are: a reference inside a sibling value is not
  resolved. A reference to itself never returns, whatever the bound. And a pointer that
  names an inherited member leaves the document: in the source the reference is replaced
  by the function \<^verbatim>\<open>Object.prototype.toString\<close>.
\<close>

lemma sibling_values_not_resolved:
  "resolveRefsInObject 4
      (JObj [(''$ref'', JStr ''#/a''), (''items'', JObj [(''$ref'', JStr ''#/a'')])])
      (JObj [(''a'', JObj [(''type'', JStr ''string'')])])
     = Returns (JObj [(''type'', JStr ''string''), (''items'', JObj [(''$ref'', JStr ''#/a'')])])"
  by code_simp

lemma self_reference_never_returns:
  "resolveRefsInObject n (JObj [(''$ref'', JStr ''#/a'')])
     (JObj [(''a'', JObj [(''$ref'', JStr ''#/a'')])]) = Unfinished"
proof (induction n)
  case 0
  then show ?case by simp
next
  case (Suc n)
  have "local_target [(''$ref'', JStr ''#/a'')] (JObj [(''a'', JObj [(''$ref'', JStr ''#/a'')])])
      = Target (JObj [(''$ref'', JStr ''#/a'')])"
    by code_simp
  with Suc show ?case by (simp add: resolveRefsInObject.simps(2))
qed

lemma inherited_member_leaves_document:
  "resolveRefsInObject n (JObj [(''$ref'', JStr ''#/toString'')]) (JObj []) \<noteq> Returns r"
proof -
  have "local_target [(''$ref'', JStr ''#/toString'')] (JObj []) = OutsideDocument"
    by code_simp
  then show ?thesis by (rule resolve_outside)
qed

end
